theory Spec2Isabelle
  imports Complex_Main "HOL-Library.Word" "HOL-Library.Signed_Division"
begin

unbundle bit_operations_syntax

section \<open>Machine types of the driver\<close>

text \<open>
  The driver is written for AVR boards (the source says so at the bus clock, at the
  filter size and in the sketch), where \<open>int\<close> has 16 bits, \<open>unsigned long\<close> has 32
  and \<open>uint8_t\<close> has 8. Signed values are read with \<open>sint\<close>; \<open>+\<close> and \<open>-\<close> on a
  word wrap around, which is what the AVR addition does where C++ leaves signed
  overflow undefined.
\<close>

type_synonym cint = "16 word"
type_synonym ulong = "32 word"
type_synonym uint8 = "8 word"

text \<open>C++ \<open>/\<close> and \<open>%\<close> on \<open>int\<close> truncate towards zero.\<close>

definition c_div :: "cint \<Rightarrow> cint \<Rightarrow> cint" where
  "c_div a b = word_of_int (sint a sdiv sint b)"

definition c_mod :: "cint \<Rightarrow> cint \<Rightarrow> cint" where
  "c_mod a b = word_of_int (sint a smod sint b)"

text \<open>
  \<open>float\<close> arithmetic is kept abstract: every function that computes with floats takes
  the operations as a record \<open>F\<close>, and nothing is assumed about them. What is proved
  holds for any rounding, for infinities and for NaN.
\<close>

record 'f float_ops =
  f_lit :: "rat \<Rightarrow> 'f"
  f_of_int :: "int \<Rightarrow> 'f"
  f_add :: "'f \<Rightarrow> 'f \<Rightarrow> 'f"
  f_mul :: "'f \<Rightarrow> 'f \<Rightarrow> 'f"
  f_div :: "'f \<Rightarrow> 'f \<Rightarrow> 'f"
  f_abs :: "'f \<Rightarrow> 'f"
  f_less :: "'f \<Rightarrow> 'f \<Rightarrow> bool"

text \<open>Exact rational arithmetic, to run the model on concrete inputs.\<close>

definition exact_ops :: "rat float_ops" where
  "exact_ops = \<lparr> f_lit = (\<lambda>q. q), f_of_int = rat_of_int, f_add = (+), f_mul = (*),
     f_div = (/), f_abs = abs, f_less = (<) \<rparr>"

section \<open>MT6701.hpp\<close>

definition PI :: rat where
  "PI = 31415926535897932384626433832795 / 10000000000000000000000000000000"

definition DEFAULT_ADDRESS :: uint8 where "DEFAULT_ADDRESS = 6"
definition UPDATE_INTERVAL :: cint where "UPDATE_INTERVAL = 50"
definition COUNTS_PER_REVOLUTION :: cint where "COUNTS_PER_REVOLUTION = 16384"
definition RPM_THRESHOLD :: cint where "RPM_THRESHOLD = 1000"
definition RPM_FILTER_SIZE :: cint where "RPM_FILTER_SIZE = 10"

definition COUNTS_TO_RADIANS :: "'f float_ops \<Rightarrow> 'f" where
  "COUNTS_TO_RADIANS F = f_lit F (2 * PI / rat_of_int (sint COUNTS_PER_REVOLUTION))"

definition COUNTS_TO_DEGREES :: "'f float_ops \<Rightarrow> 'f" where
  "COUNTS_TO_DEGREES F = f_lit F (360 / rat_of_int (sint COUNTS_PER_REVOLUTION))"

definition SECONDS_PER_MINUTE :: "'f float_ops \<Rightarrow> 'f" where
  "SECONDS_PER_MINUTE F = f_lit F 60"

record 'f MT6701_state =
  address :: uint8
  updateIntervalMillis :: cint
  lastUpdateTime :: ulong
  count :: cint
  accumulator :: cint
  rpm :: 'f
  rpmFilter :: "'f list"
  rpmFilterIndex :: cint
  rpmFilterSize :: cint
  rpmThreshold :: cint

text \<open>
  What C++ leaves undefined and the model reports: a modulus by zero, and an access to
  \<open>rpmFilter\<close> outside its \<open>RPM_FILTER_SIZE\<close> slots.
\<close>

datatype error = DivisionByZero | IndexOutOfBounds

section \<open>The constructor and the accessors\<close>

definition MT6701 :: "'f float_ops \<Rightarrow> uint8 \<Rightarrow> cint \<Rightarrow> cint \<Rightarrow> cint \<Rightarrow> 'f MT6701_state" where
  "MT6701 F device_address update_interval rpm_threshold rpm_filter_size =
     \<lparr> address = device_address,
       updateIntervalMillis = update_interval,
       lastUpdateTime = 0,
       count = 0,
       accumulator = 0,
       rpm = f_of_int F 0,
       rpmFilter = replicate (nat (sint RPM_FILTER_SIZE)) (f_lit F 0),
       rpmFilterIndex = 0,
       rpmFilterSize = (if RPM_FILTER_SIZE <s rpm_filter_size then RPM_FILTER_SIZE
                        else rpm_filter_size),
       rpmThreshold = rpm_threshold \<rparr>"

definition getAngleRadians :: "'f float_ops \<Rightarrow> 'f MT6701_state \<Rightarrow> 'f" where
  "getAngleRadians F st = f_mul F (f_of_int F (sint (count st))) (COUNTS_TO_RADIANS F)"

definition getAngleDegrees :: "'f float_ops \<Rightarrow> 'f MT6701_state \<Rightarrow> 'f" where
  "getAngleDegrees F st = f_mul F (f_of_int F (sint (count st))) (COUNTS_TO_DEGREES F)"

definition getFullTurns :: "'f MT6701_state \<Rightarrow> cint" where
  "getFullTurns st = c_div (accumulator st) COUNTS_PER_REVOLUTION"

definition getTurns :: "'f float_ops \<Rightarrow> 'f MT6701_state \<Rightarrow> 'f" where
  "getTurns F st =
     f_div F (f_of_int F (sint (accumulator st))) (f_of_int F (sint COUNTS_PER_REVOLUTION))"

definition getAccumulator :: "'f MT6701_state \<Rightarrow> cint" where
  "getAccumulator st = accumulator st"

definition getCount :: "'f MT6701_state \<Rightarrow> cint" where
  "getCount st = count st"

text \<open>
  The summing loop of \<open>getRPM\<close>. The counter \<open>i\<close> stays below \<open>rpmFilterSize\<close>, so
  \<open>i++\<close> never overflows and \<open>i\<close> is an \<open>int\<close> here. A read past the array is an error.
\<close>

function getRPM_loop :: "'f float_ops \<Rightarrow> 'f MT6701_state \<Rightarrow> int \<Rightarrow> 'f \<Rightarrow> error + 'f" where
  "getRPM_loop F st i fsum =
     (if i < sint (rpmFilterSize st) then
        (if 0 \<le> i \<and> nat i < length (rpmFilter st)
         then getRPM_loop F st (i + 1) (f_add F fsum (rpmFilter st ! nat i))
         else Inl IndexOutOfBounds)
      else Inr fsum)"
  by pat_completeness auto
termination
  by (relation "measure (\<lambda>(F, st, i, fsum). nat (sint (rpmFilterSize st) - i))") auto

declare getRPM_loop.simps [simp del]

definition getRPM :: "'f float_ops \<Rightarrow> 'f MT6701_state \<Rightarrow> error + 'f" where
  "getRPM F st =
     (case getRPM_loop F st 0 (f_of_int F 0) of
        Inl e \<Rightarrow> Inl e
      | Inr fsum \<Rightarrow> Inr (f_div F fsum (f_of_int F (sint (rpmFilterSize st)))))"

section \<open>The bus\<close>

text \<open>
  \<open>Wire\<close> is the script of what the device delivers: one entry for each request, the
  bytes that are available after it. A bus with no entry left delivers nothing.
\<close>

type_synonym wire = "uint8 list list"

definition readCount :: "wire \<Rightarrow> cint \<times> wire" where
  "readCount w =
     (case w of
        [] \<Rightarrow> (- 1, [])
      | reply # rest \<Rightarrow>
          (case reply of
             angle_h # angle_l # _ \<Rightarrow>
               (push_bit 6 (ucast angle_h) OR drop_bit 2 (ucast angle_l), rest)
           | _ \<Rightarrow> (- 1, rest)))"

section \<open>updateCount\<close>

text \<open>The retry loop: \<open>for (int i = 0; i < 3 && newCount < 0; i++)\<close>.\<close>

function retry :: "nat \<Rightarrow> cint \<Rightarrow> wire \<Rightarrow> cint \<times> wire" where
  "retry i newCount w =
     (if i < 3 \<and> newCount <s 0
      then (case readCount w of (n, w') \<Rightarrow> retry (Suc i) n w')
      else (newCount, w))"
  by pat_completeness auto
termination
  by (relation "measure (\<lambda>(i, newCount, w). 3 - i)") auto

declare retry.simps [simp del]

text \<open>The wraparound correction of \<open>diff\<close>.\<close>

definition wrapDiff :: "cint \<Rightarrow> cint" where
  "wrapDiff diff =
     (if c_div COUNTS_PER_REVOLUTION 2 <s diff then diff - COUNTS_PER_REVOLUTION
      else if diff <s c_div (- COUNTS_PER_REVOLUTION) 2 then diff + COUNTS_PER_REVOLUTION
      else diff)"

text \<open>Lines 119 to 123: the first read and its retries.\<close>

definition readWithRetries :: "wire \<Rightarrow> cint \<times> wire" where
  "readWithRetries w = (case readCount w of (n0, w0) \<Rightarrow> retry 0 n0 w0)"

definition updateRPMFilter :: "'f MT6701_state \<Rightarrow> 'f \<Rightarrow> error + 'f MT6701_state" where
  "updateRPMFilter st newRPM =
     (if \<not> (0 \<le> sint (rpmFilterIndex st) \<and>
             nat (sint (rpmFilterIndex st)) < length (rpmFilter st))
      then Inl IndexOutOfBounds
      else if rpmFilterSize st = 0 then Inl DivisionByZero
      else Inr (st\<lparr> rpmFilter := (rpmFilter st)[nat (sint (rpmFilterIndex st)) := newRPM],
                    rpmFilterIndex := c_mod (rpmFilterIndex st + 1) (rpmFilterSize st) \<rparr>))"

text \<open>The instantaneous rate of line 142.\<close>

definition rate :: "'f float_ops \<Rightarrow> cint \<Rightarrow> ulong \<Rightarrow> 'f" where
  "rate F diff timeElapsed =
     f_mul F
       (f_div F (f_of_int F (sint diff)) (f_of_int F (sint COUNTS_PER_REVOLUTION)))
       (f_div F (f_mul F (SECONDS_PER_MINUTE F) (f_of_int F 1000))
                (f_of_int F (uint timeElapsed)))"

text \<open>
  \<open>updateCount\<close>, with the value \<open>currentTime\<close> that \<open>millis()\<close> returns in this call.
  It returns the object and what is left of the bus script.
\<close>

definition updateCount ::
  "'f float_ops \<Rightarrow> ulong \<Rightarrow> 'f MT6701_state \<times> wire \<Rightarrow> error + 'f MT6701_state \<times> wire" where
  "updateCount F currentTime sw =
     (case sw of (st, w) \<Rightarrow>
       (case readWithRetries w of (newCount, w') \<Rightarrow>
          if newCount <s 0 then Inr (st, w')
          else
            let diff = wrapDiff (newCount - count st);
                timeElapsed = currentTime - lastUpdateTime st
            in (case (if 0 < timeElapsed
                      then (let st1 = st\<lparr> rpm := rate F diff timeElapsed \<rparr>
                            in if f_less F (f_abs F (rpm st1)) (f_of_int F (sint (rpmThreshold st1)))
                               then updateRPMFilter st1 (rpm st1)
                               else Inr st1)
                      else Inr st) of
                  Inl e \<Rightarrow> Inl e
                | Inr st2 \<Rightarrow>
                    Inr (st2\<lparr> accumulator := accumulator st2 + diff,
                              count := newCount,
                              lastUpdateTime := currentTime \<rparr>, w'))))"

text \<open>The caller's loop: one \<open>updateCount\<close> for each tick, at the given clock values.\<close>

fun updates ::
  "'f float_ops \<Rightarrow> ulong list \<Rightarrow> 'f MT6701_state \<times> wire \<Rightarrow> error + 'f MT6701_state \<times> wire" where
  "updates F [] sw = Inr sw"
| "updates F (t # ts) sw =
     (case updateCount F t sw of Inl e \<Rightarrow> Inl e | Inr sw' \<Rightarrow> updates F ts sw')"

text \<open>The global object of the sketch, built with the default arguments.\<close>

definition mt6701 :: "'f float_ops \<Rightarrow> 'f MT6701_state" where
  "mt6701 F = MT6701 F DEFAULT_ADDRESS UPDATE_INTERVAL RPM_THRESHOLD RPM_FILTER_SIZE"

text \<open>The samples \<open>xs\<close> written to the filter one after the other.\<close>

fun updateRPMFilter_seq :: "'f MT6701_state \<Rightarrow> 'f list \<Rightarrow> error + 'f MT6701_state" where
  "updateRPMFilter_seq st [] = Inr st"
| "updateRPMFilter_seq st (x # xs) =
     (case updateRPMFilter st x of Inl e \<Rightarrow> Inl e | Inr st' \<Rightarrow> updateRPMFilter_seq st' xs)"

text \<open>
  The arithmetic mean in the arithmetic \<open>F\<close>: the sum from the left, starting from 0,
  divided by the number of samples. In exact arithmetic it is the sum over the length
  (lemma \<open>mean_exact\<close>).
\<close>

definition mean :: "'f float_ops \<Rightarrow> 'f list \<Rightarrow> 'f" where
  "mean F xs = f_div F (foldl (f_add F) (f_of_int F 0) xs) (f_of_int F (int (length xs)))"

text \<open>
  The rate that a call of \<open>updateCount\<close> accepts into the filter, by the tests of the
  code: a sample was read, time has passed, and the absolute value of the rate is below
  the threshold. \<open>None\<close> when one of them fails.
\<close>

definition acceptedRate :: "'f float_ops \<Rightarrow> ulong \<Rightarrow> 'f MT6701_state \<times> wire \<Rightarrow> 'f option" where
  "acceptedRate F currentTime sw =
     (case sw of (st, w) \<Rightarrow>
       (case readWithRetries w of (newCount, w') \<Rightarrow>
          if newCount <s 0 then None
          else
            let diff = wrapDiff (newCount - count st);
                timeElapsed = currentTime - lastUpdateTime st;
                r = rate F diff timeElapsed
            in if 0 < timeElapsed \<and> f_less F (f_abs F r) (f_of_int F (sint (rpmThreshold st)))
               then Some r else None))"

text \<open>The rates accepted along the caller's loop, in the order of the calls.\<close>

fun acceptedRates ::
  "'f float_ops \<Rightarrow> ulong list \<Rightarrow> 'f MT6701_state \<times> wire \<Rightarrow> 'f list" where
  "acceptedRates F [] sw = []"
| "acceptedRates F (t # ts) sw =
     (case updateCount F t sw of
        Inl e \<Rightarrow> []
      | Inr sw' \<Rightarrow>
          (case acceptedRate F t sw of None \<Rightarrow> [] | Some r \<Rightarrow> [r]) @ acceptedRates F ts sw')"

section \<open>Invariants\<close>

text \<open>The low 14 bits of the accumulator are the count.\<close>

definition tracks :: "'f MT6701_state \<Rightarrow> bool" where
  "tracks st \<longleftrightarrow> take_bit 14 (accumulator st) = count st"

text \<open>
  The filter array has its \<open>RPM_FILTER_SIZE\<close> slots, the filter size in use is between 1
  and that, and the write index is below the size in use.
\<close>

definition well_formed :: "'f MT6701_state \<Rightarrow> bool" where
  "well_formed st \<longleftrightarrow>
     length (rpmFilter st) = nat (sint RPM_FILTER_SIZE) \<and>
     0 < sint (rpmFilterSize st) \<and> sint (rpmFilterSize st) \<le> sint RPM_FILTER_SIZE \<and>
     0 \<le> sint (rpmFilterIndex st) \<and> sint (rpmFilterIndex st) < sint (rpmFilterSize st)"

text \<open>
  Every slot of the filter holds the initial \<open>0.0f\<close> or a rate whose absolute value is
  below the threshold \<open>thr\<close>, and \<open>thr\<close> is the threshold of the object.
\<close>

definition accepted_only :: "'f float_ops \<Rightarrow> cint \<Rightarrow> 'f MT6701_state \<Rightarrow> bool" where
  "accepted_only F thr st \<longleftrightarrow>
     rpmThreshold st = thr \<and>
     (\<forall>x \<in> set (rpmFilter st). x = f_lit F 0 \<or> f_less F (f_abs F x) (f_of_int F (sint thr)))"

section \<open>Arithmetic of 16-bit counts\<close>

lemma cpr_half:
  "c_div COUNTS_PER_REVOLUTION 2 = 8192" "c_div (- COUNTS_PER_REVOLUTION) 2 = - 8192"
  by (simp_all add: c_div_def COUNTS_PER_REVOLUTION_def)

lemma take_bit_small: "take_bit 14 (n :: cint) < 16384"
proof -
  have "take_bit 14 (uint n) < 2 ^ 14" by (rule take_bit_int_less_exp)
  then have "uint (take_bit 14 n) < 16384" by (simp add: unsigned_take_bit_eq)
  then show ?thesis by (simp add: word_less_def)
qed

lemma raw_lt:
  "push_bit 6 (ucast (h :: uint8) :: cint) OR drop_bit 2 (ucast (l :: uint8)) < 16384"
proof -
  let ?x = "push_bit 6 (ucast h :: cint) OR drop_bit 2 (ucast l :: cint)"
  have "take_bit 14 ?x = ?x"
    by (rule bit_word_eqI) (auto simp: bit_simps dest: bit_imp_le_length)
  then have "?x = take_bit 14 ?x" by simp
  also have "\<dots> < 16384" by (rule take_bit_small)
  finally show ?thesis .
qed

lemma sint_small:
  assumes "(n :: cint) < 16384" shows "sint n = uint n"
proof -
  from assms have "uint n < 2 ^ 15" by (simp add: word_less_def)
  moreover have "- (2 ^ 15) \<le> uint n"
    using order_trans [OF _ uint_ge_0 [of n], of "- (2 ^ 15)"] by simp
  ultimately have "signed_take_bit 15 (uint n) = uint n"
    by (rule signed_take_bit_int_eq_self [rotated])
  then show ?thesis by (simp add: sint_uint)
qed

lemma small_not_negative: "(n :: cint) < 16384 \<Longrightarrow> \<not> n <s 0"
  by (simp add: word_sless_alt sint_small)

lemma small_take_bit:
  assumes "(n :: cint) < 16384" shows "take_bit 14 n = n"
proof -
  from assms have "uint n < 2 ^ 14" by (simp add: word_less_def)
  then have "take_bit 14 (uint n) = uint n" by (simp add: take_bit_int_eq_self)
  then have "uint (take_bit 14 n) = uint n" by (simp add: unsigned_take_bit_eq)
  then show ?thesis by (simp add: word_uint_eq_iff)
qed

lemma uint_take_bit_14_add:
  "uint (take_bit 14 (a + b :: cint)) = take_bit 14 (uint a + uint b)"
proof -
  have "uint (take_bit 14 (a + b)) = take_bit 14 ((uint a + uint b) mod 2 ^ 16)"
    by (simp add: unsigned_take_bit_eq uint_word_ariths)
  also have "\<dots> = take_bit 14 (take_bit 16 (uint a + uint b))"
    by (simp add: take_bit_eq_mod)
  also have "\<dots> = take_bit 14 (uint a + uint b)" by simp
  finally show ?thesis .
qed

lemma take_bit_14_add:
  "take_bit 14 (a + b :: cint) = take_bit 14 (take_bit 14 a + take_bit 14 b)"
proof -
  have "uint (take_bit 14 (take_bit 14 a + take_bit 14 b))
        = take_bit 14 (uint (take_bit 14 a) + uint (take_bit 14 b))"
    by (rule uint_take_bit_14_add)
  also have "\<dots> = take_bit 14 (take_bit 14 (uint a) + take_bit 14 (uint b))"
    by (simp only: unsigned_take_bit_eq)
  also have "\<dots> = take_bit 14 (uint a + uint b)" by (rule take_bit_add)
  also have "\<dots> = uint (take_bit 14 (a + b))" by (rule uint_take_bit_14_add [symmetric])
  finally show ?thesis by (simp only: word_uint_eq_iff)
qed

lemma take_bit_14_plus_rev: "take_bit 14 (d + 16384 :: cint) = take_bit 14 d"
  using take_bit_14_add [of d 16384] by simp

lemma take_bit_14_minus_rev: "take_bit 14 (d - 16384 :: cint) = take_bit 14 d"
  using take_bit_14_plus_rev [of "d - 16384"] by simp

lemma wrapDiff_take_bit: "take_bit 14 (wrapDiff d) = take_bit 14 d"
  by (simp add: wrapDiff_def COUNTS_PER_REVOLUTION_def take_bit_14_plus_rev
      take_bit_14_minus_rev)

lemma sint_mod_14: "sint (a :: cint) mod 16384 = uint (take_bit 14 a)"
proof -
  have "sint a mod 2 ^ 14 = take_bit 14 (signed_take_bit 15 (uint a))"
    by (simp add: sint_uint take_bit_eq_mod)
  also have "\<dots> = take_bit 14 (uint a)"
    by (rule take_bit_signed_take_bit) simp
  finally show ?thesis by (simp add: unsigned_take_bit_eq)
qed

text \<open>The sign-corrected remainder of C++ is the remainder of \<open>mod\<close>.\<close>

lemma smod_corrected:
  fixes a R :: int
  assumes "0 < R"
  shows "((a smod R) + R) smod R = a mod R"
proof -
  have 1: "a smod R = a mod R - R * of_bool (sgn a \<noteq> sgn R \<and> \<not> R dvd a)"
    by (rule signed_modulo_int_eq_modulo_int)
  have 2: "0 \<le> a mod R" and 3: "a mod R < R" using assms by simp_all
  show ?thesis
  proof (cases "sgn a \<noteq> sgn R \<and> \<not> R dvd a")
    case True
    then have "a mod R \<noteq> 0" by (simp add: dvd_eq_mod_eq_0)
    with True 1 2 3 have "a smod R + R = a mod R" "0 < a mod R" by simp_all
    then show ?thesis using assms
      by (simp add: signed_modulo_int_def)
  next
    case False
    with 1 have "a smod R + R = a mod R + R" by auto
    moreover have "0 < a mod R + R" using 2 assms by linarith
    ultimately show ?thesis using assms
      by (simp add: signed_modulo_int_def)
  qed
qed

section \<open>Reading the sensor\<close>

lemma readCount_range: "readCount w = (n, w') \<Longrightarrow> n = - 1 \<or> n < 16384"
  by (auto simp: readCount_def raw_lt split: list.splits)

lemma retry_range:
  "retry i n w = (m, w') \<Longrightarrow> n = - 1 \<or> n < 16384 \<Longrightarrow> m = - 1 \<or> m < 16384"
proof (induction i n w rule: retry.induct)
  case (1 i newCount w)
  show ?case
  proof (cases "i < 3 \<and> newCount <s 0")
    case True
    obtain n2 w2 where r: "readCount w = (n2, w2)" by (cases "readCount w")
    with True "1.prems"(1) have "retry (Suc i) n2 w2 = (m, w')"
      by (simp add: retry.simps [of i])
    with "1.IH" [OF True r [symmetric]] r readCount_range [OF r] show ?thesis by simp
  next
    case False
    with "1.prems" show ?thesis by (simp add: retry.simps [of i])
  qed
qed

lemma readWithRetries_range:
  assumes "readWithRetries w = (n, w')" shows "n = - 1 \<or> n < 16384"
proof -
  obtain n0 w0 where r: "readCount w = (n0, w0)" by (cases "readCount w")
  with assms have "retry 0 n0 w0 = (n, w')" by (simp add: readWithRetries_def)
  then show ?thesis using readCount_range [OF r] by (rule retry_range)
qed

lemma readWithRetries_success:
  "readWithRetries w = (n, w') \<Longrightarrow> \<not> n <s 0 \<Longrightarrow> n < 16384"
  by (drule readWithRetries_range) (auto simp: word_sless_alt)

section \<open>The four outcomes of one call\<close>

lemma updateCount_no_sample:
  "readWithRetries w = (n, w') \<Longrightarrow> n <s 0 \<Longrightarrow> updateCount F t (st, w) = Inr (st, w')"
  by (simp add: updateCount_def)

lemma updateCount_zero_elapsed:
  "readWithRetries w = (n, w') \<Longrightarrow> \<not> n <s 0 \<Longrightarrow> t = lastUpdateTime st \<Longrightarrow>
   updateCount F t (st, w) =
     Inr (st\<lparr> accumulator := accumulator st + wrapDiff (n - count st),
              count := n, lastUpdateTime := t \<rparr>, w')"
  by (simp add: updateCount_def)

lemma updateCount_rejected:
  "readWithRetries w = (n, w') \<Longrightarrow> \<not> n <s 0 \<Longrightarrow> t \<noteq> lastUpdateTime st \<Longrightarrow>
   r = rate F (wrapDiff (n - count st)) (t - lastUpdateTime st) \<Longrightarrow>
   \<not> f_less F (f_abs F r) (f_of_int F (sint (rpmThreshold st))) \<Longrightarrow>
   updateCount F t (st, w) =
     Inr (st\<lparr> rpm := r, accumulator := accumulator st + wrapDiff (n - count st),
              count := n, lastUpdateTime := t \<rparr>, w')"
  by (simp add: updateCount_def Let_def word_greater_zero_iff)

lemma updateCount_accepted:
  "readWithRetries w = (n, w') \<Longrightarrow> \<not> n <s 0 \<Longrightarrow> t \<noteq> lastUpdateTime st \<Longrightarrow>
   r = rate F (wrapDiff (n - count st)) (t - lastUpdateTime st) \<Longrightarrow>
   f_less F (f_abs F r) (f_of_int F (sint (rpmThreshold st))) \<Longrightarrow>
   updateCount F t (st, w) =
     (case updateRPMFilter (st\<lparr> rpm := r \<rparr>) r of
        Inl e \<Rightarrow> Inl e
      | Inr st2 \<Rightarrow>
          Inr (st2\<lparr> accumulator := accumulator st2 + wrapDiff (n - count st),
                    count := n, lastUpdateTime := t \<rparr>, w'))"
  by (simp add: updateCount_def Let_def word_greater_zero_iff)

section \<open>The accumulator follows the count\<close>

lemma updateRPMFilter_position:
  "updateRPMFilter st x = Inr st' \<Longrightarrow>
   accumulator st' = accumulator st \<and> count st' = count st \<and>
   lastUpdateTime st' = lastUpdateTime st \<and> rpm st' = rpm st \<and>
   rpmFilterSize st' = rpmFilterSize st \<and> rpmThreshold st' = rpmThreshold st"
  by (auto simp: updateRPMFilter_def split: if_splits)

text \<open>One call, whatever its outcome, in terms of the sample it read.\<close>

lemma updateCount_position:
  assumes "updateCount F t (st, w) = Inr (st', w')"
  shows "(\<exists>n. n < 16384 \<and> accumulator st' = accumulator st + wrapDiff (n - count st) \<and> count st' = n)
         \<or> (accumulator st' = accumulator st \<and> count st' = count st)"
proof -
  obtain n w1 where r: "readWithRetries w = (n, w1)" by (cases "readWithRetries w")
  show ?thesis
  proof (cases "n <s 0")
    case True
    with assms r show ?thesis by (simp add: updateCount_no_sample)
  next
    case False
    then have n: "n < 16384" using r by (simp add: readWithRetries_success)
    from assms r False have "accumulator st' = accumulator st + wrapDiff (n - count st) \<and> count st' = n"
      by (auto simp: updateCount_def Let_def split: if_splits sum.splits dest: updateRPMFilter_position)
    with n show ?thesis by blast
  qed
qed

lemma tracks_step:
  assumes "take_bit 14 a = c" "n < 16384"
  shows "take_bit 14 (a + wrapDiff (n - c)) = n"
proof -
  from assms(1) have c: "take_bit 14 c = take_bit 14 a" by auto
  have "take_bit 14 (a + wrapDiff (n - c))
        = take_bit 14 (take_bit 14 a + take_bit 14 (wrapDiff (n - c)))"
    by (rule take_bit_14_add)
  also have "\<dots> = take_bit 14 (take_bit 14 c + take_bit 14 (n - c))"
    by (simp only: wrapDiff_take_bit c)
  also have "\<dots> = take_bit 14 (c + (n - c))"
    by (rule take_bit_14_add [symmetric])
  also have "\<dots> = n" using assms(2) by (simp add: small_take_bit)
  finally show ?thesis .
qed

lemma updateCount_tracks:
  assumes "updateCount F t (st, w) = Inr (st', w')" "tracks st"
  shows "tracks st'"
  using updateCount_position [OF assms(1)] assms(2)
  by (auto simp: tracks_def tracks_step)

lemma updates_tracks:
  "updates F ts sw = Inr sw' \<Longrightarrow> tracks (fst sw) \<Longrightarrow> tracks (fst sw')"
proof (induction ts arbitrary: sw)
  case Nil
  then show ?case by simp
next
  case (Cons t ts)
  from Cons.prems(1) obtain sw1 where 1: "updateCount F t sw = Inr sw1"
    and 2: "updates F ts sw1 = Inr sw'"
    by (auto split: sum.splits)
  from 1 Cons.prems(2) have "tracks (fst sw1)"
    by (cases sw; cases sw1) (auto dest: updateCount_tracks)
  with 2 show ?case by (rule Cons.IH)
qed

lemma tracks_MT6701: "tracks (MT6701 F a u thr n)"
  by (simp add: tracks_def MT6701_def)

lemma tracks_sint:
  assumes "tracks st"
  shows "sint (accumulator st) mod 16384 = sint (count st)"
proof -
  from assms have c: "count st = take_bit 14 (accumulator st)" by (simp add: tracks_def)
  have "count st < 16384" unfolding c by (rule take_bit_small)
  then have "sint (count st) = uint (count st)" by (rule sint_small)
  then show ?thesis by (simp add: sint_mod_14 c)
qed

lemma smod_bounds:
  fixes a :: int
  shows "- 16384 < a smod 16384" "a smod 16384 < 16384"
proof -
  have "0 \<le> \<bar>a\<bar> mod 16384" "\<bar>a\<bar> mod 16384 < 16384" by simp_all
  then show "- 16384 < a smod 16384" "a smod 16384 < 16384"
    by (auto simp: signed_modulo_int_def sgn_if)
qed

lemma sint_word_of_int_16:
  assumes "- 32768 \<le> x" "x < 32768"
  shows "sint (word_of_int x :: cint) = x"
proof -
  have "sint (word_of_int x :: cint) = signed_take_bit 15 x"
    by (simp only: sint_sbintrunc') simp
  also have "\<dots> = x" using assms by (intro signed_take_bit_int_eq_self) simp_all
  finally show ?thesis .
qed

lemma c_mod_corrected:
  "c_mod (c_mod a COUNTS_PER_REVOLUTION + COUNTS_PER_REVOLUTION) COUNTS_PER_REVOLUTION
   = word_of_int (((sint a smod 16384) + 16384) smod 16384)"
proof -
  let ?x = "sint a smod 16384"
  have b: "- 16384 < ?x" "?x < 16384" by (rule smod_bounds)+
  have "(word_of_int ?x :: cint) + 16384 = word_of_int (?x + 16384)" by simp
  moreover have "sint (word_of_int (?x + 16384) :: cint) = ?x + 16384"
    using b by (intro sint_word_of_int_16) linarith+
  ultimately show ?thesis
    by (simp add: c_mod_def COUNTS_PER_REVOLUTION_def)
qed

text \<open>
  Claim C2. From the constructed object, after any sequence of calls of \<open>updateCount\<close>
  (with or without a sample) the sign-corrected remainder of the accumulator by
  \<open>COUNTS_PER_REVOLUTION\<close> is the stored count: as a formula on the integers, and as the
  C++ expression evaluated in 16-bit arithmetic. The count is in \<open>[0, COUNTS_PER_REVOLUTION)\<close>.
\<close>

theorem accumulator_invariant:
  assumes "updates F ts (MT6701 F a u thr n, w) = Inr (st', w')"
  shows "((sint (accumulator st') smod sint COUNTS_PER_REVOLUTION) + sint COUNTS_PER_REVOLUTION)
           smod sint COUNTS_PER_REVOLUTION = sint (count st')
         \<and> c_mod (c_mod (accumulator st') COUNTS_PER_REVOLUTION + COUNTS_PER_REVOLUTION)
              COUNTS_PER_REVOLUTION = getCount st'
         \<and> 0 \<le> sint (count st') \<and> sint (count st') < sint COUNTS_PER_REVOLUTION"
proof -
  have "tracks (fst (st', w'))"
    using assms by (rule updates_tracks) (simp add: tracks_MT6701)
  then have t: "tracks st'" by simp
  then have m: "sint (accumulator st') mod 16384 = sint (count st')" by (rule tracks_sint)
  have R: "sint COUNTS_PER_REVOLUTION = 16384" by (simp add: COUNTS_PER_REVOLUTION_def)
  have 1: "((sint (accumulator st') smod 16384) + 16384) smod 16384 = sint (count st')"
    using m by (simp add: smod_corrected)
  have 2: "0 \<le> sint (count st')" "sint (count st') < 16384"
    using m [symmetric] by simp_all
  have "c_mod (c_mod (accumulator st') COUNTS_PER_REVOLUTION + COUNTS_PER_REVOLUTION)
          COUNTS_PER_REVOLUTION = word_of_int (sint (count st'))"
    by (simp only: c_mod_corrected 1)
  then have 3: "c_mod (c_mod (accumulator st') COUNTS_PER_REVOLUTION + COUNTS_PER_REVOLUTION)
          COUNTS_PER_REVOLUTION = getCount st'"
    by (simp add: getCount_def)
  show ?thesis using 1 2 3 by (simp add: R)
qed

theorem accumulator_invariant_witness:
  "updates exact_ops [100, 200] (MT6701 exact_ops 6 50 1000 10, [[255, 252], [255, 0]]) =
     Inr (\<lparr>address = 6, updateIntervalMillis = 50, lastUpdateTime = 200,
           count = 16320, accumulator = - 64, rpm = - (4725 / 2048),
           rpmFilter = [- (75 / 2048), - (4725 / 2048), 0, 0, 0, 0, 0, 0, 0, 0],
           rpmFilterIndex = 2, rpmFilterSize = 10, rpmThreshold = 1000\<rparr>, [])
   \<and> ((- 64) smod 16384 + 16384) smod 16384 = (16320 :: int)
   \<and> c_mod (c_mod (- 64) COUNTS_PER_REVOLUTION + COUNTS_PER_REVOLUTION)
        COUNTS_PER_REVOLUTION = 16320"
proof -
  let ?s = "\<lparr>address = 6, updateIntervalMillis = 50, lastUpdateTime = 200,
           count = 16320, accumulator = - 64, rpm = - (4725 / 2048 :: rat),
           rpmFilter = [- (75 / 2048), - (4725 / 2048), 0, 0, 0, 0, 0, 0, 0, 0],
           rpmFilterIndex = 2, rpmFilterSize = 10, rpmThreshold = 1000\<rparr>"
  have a: "updates exact_ops [100, 200] (MT6701 exact_ops 6 50 1000 10, [[255, 252], [255, 0]])
           = Inr (?s, [])"
    by code_simp
  have R: "sint COUNTS_PER_REVOLUTION = 16384" by (simp add: COUNTS_PER_REVOLUTION_def)
  have s: "sint (- 64 :: cint) = - 64" "sint (16320 :: cint) = 16320" by simp_all
  note t = accumulator_invariant [OF a]
  from t have b: "((- 64) smod 16384 + 16384) smod 16384 = (16320 :: int)"
    by (simp only: R s MT6701_state.simps)
  from t have c: "c_mod (c_mod (- 64) COUNTS_PER_REVOLUTION + COUNTS_PER_REVOLUTION)
        COUNTS_PER_REVOLUTION = 16320"
    by (simp only: getCount_def MT6701_state.simps)
  from a b c show ?thesis by (intro conjI)
qed


section \<open>The filter index stays inside the filter\<close>

lemma sint_succ:
  assumes "0 \<le> sint (i :: cint)" "sint i < 10"
  shows "sint (i + 1) = sint i + 1"
proof -
  have "sint (i + 1) = signed_take_bit 15 (sint i + 1)"
    by (simp add: sint_word_ariths)
  also have "\<dots> = sint i + 1" using assms by (intro signed_take_bit_int_eq_self) simp_all
  finally show ?thesis .
qed

lemma c_mod_step:
  assumes "0 \<le> sint i" "sint i < sint n" "sint n \<le> 10"
  shows "sint (c_mod (i + 1) n) = (sint i + 1) mod sint n"
proof -
  from assms have s: "sint (i + 1) = sint i + 1" by (intro sint_succ) simp_all
  have p: "0 < sint i + 1" "0 < sint n" using assms by simp_all
  then have "(sint i + 1) smod sint n = (sint i + 1) mod sint n"
    by (simp add: signed_modulo_int_def)
  moreover have "0 \<le> (sint i + 1) mod sint n" "(sint i + 1) mod sint n < sint n"
    using p by simp_all
  ultimately show ?thesis using assms(3)
    by (simp add: c_mod_def s sint_word_of_int_16)
qed

lemma updateRPMFilter_well_formed:
  assumes "well_formed st"
  shows "updateRPMFilter st x =
           Inr (st\<lparr> rpmFilter := (rpmFilter st)[nat (sint (rpmFilterIndex st)) := x],
                    rpmFilterIndex := c_mod (rpmFilterIndex st + 1) (rpmFilterSize st) \<rparr>)"
    and "well_formed (st\<lparr> rpmFilter := (rpmFilter st)[nat (sint (rpmFilterIndex st)) := x],
                    rpmFilterIndex := c_mod (rpmFilterIndex st + 1) (rpmFilterSize st) \<rparr>)"
proof -
  have R: "sint RPM_FILTER_SIZE = 10" by (simp add: RPM_FILTER_SIZE_def)
  from assms have a: "length (rpmFilter st) = 10" "0 < sint (rpmFilterSize st)"
    "sint (rpmFilterSize st) \<le> 10" "0 \<le> sint (rpmFilterIndex st)"
    "sint (rpmFilterIndex st) < sint (rpmFilterSize st)"
    by (simp_all add: well_formed_def R)
  from a(2) have nz: "rpmFilterSize st \<noteq> 0" by auto
  from a show "updateRPMFilter st x =
           Inr (st\<lparr> rpmFilter := (rpmFilter st)[nat (sint (rpmFilterIndex st)) := x],
                    rpmFilterIndex := c_mod (rpmFilterIndex st + 1) (rpmFilterSize st) \<rparr>)"
    by (simp add: updateRPMFilter_def nz)
  have m: "sint (c_mod (rpmFilterIndex st + 1) (rpmFilterSize st))
           = (sint (rpmFilterIndex st) + 1) mod sint (rpmFilterSize st)"
    using a(4,5,3) by (rule c_mod_step)
  show "well_formed (st\<lparr> rpmFilter := (rpmFilter st)[nat (sint (rpmFilterIndex st)) := x],
                    rpmFilterIndex := c_mod (rpmFilterIndex st + 1) (rpmFilterSize st) \<rparr>)"
    using a by (simp add: well_formed_def R m)
qed

lemma well_formed_frame:
  "well_formed st \<Longrightarrow> rpmFilter st' = rpmFilter st \<Longrightarrow> rpmFilterIndex st' = rpmFilterIndex st
   \<Longrightarrow> rpmFilterSize st' = rpmFilterSize st \<Longrightarrow> well_formed st'"
  by (simp add: well_formed_def)

lemma updateCount_well_formed:
  assumes "well_formed st"
  shows "\<exists>st' w'. updateCount F t (st, w) = Inr (st', w') \<and> well_formed st'
           \<and> rpmFilterSize st' = rpmFilterSize st"
proof -
  obtain n w1 where r: "readWithRetries w = (n, w1)" by (cases "readWithRetries w")
  let ?r = "rate F (wrapDiff (n - count st)) (t - lastUpdateTime st)"
  consider (none) "n <s 0"
    | (zero) "\<not> n <s 0" "t = lastUpdateTime st"
    | (rejected) "\<not> n <s 0" "t \<noteq> lastUpdateTime st"
        "\<not> f_less F (f_abs F ?r) (f_of_int F (sint (rpmThreshold st)))"
    | (accepted) "\<not> n <s 0" "t \<noteq> lastUpdateTime st"
        "f_less F (f_abs F ?r) (f_of_int F (sint (rpmThreshold st)))"
    by blast
  then show ?thesis
  proof cases
    case none
    with r assms show ?thesis by (simp add: updateCount_no_sample)
  next
    case zero
    from updateCount_zero_elapsed [OF r zero, of F] assms show ?thesis
      by (auto intro: well_formed_frame)
  next
    case rejected
    from updateCount_rejected [OF r rejected(1,2) refl rejected(3)] assms show ?thesis
      by (auto intro: well_formed_frame)
  next
    case accepted
    from assms have wf1: "well_formed (st\<lparr> rpm := ?r \<rparr>)" by (rule well_formed_frame) simp_all
    note u = updateRPMFilter_well_formed [OF wf1, of ?r]
    from updateCount_accepted [OF r accepted(1,2) refl accepted(3)] u(1)
    have "updateCount F t (st, w) = Inr (
       (st\<lparr> rpm := ?r \<rparr>)\<lparr> rpmFilter := (rpmFilter st)[nat (sint (rpmFilterIndex st)) := ?r],
                    rpmFilterIndex := c_mod (rpmFilterIndex st + 1) (rpmFilterSize st),
          accumulator := accumulator st + wrapDiff (n - count st),
                    count := n, lastUpdateTime := t \<rparr>, w1)" by simp
    moreover have "well_formed ((st\<lparr> rpm := ?r \<rparr>)\<lparr> rpmFilter := (rpmFilter st)[nat (sint (rpmFilterIndex st)) := ?r],
                    rpmFilterIndex := c_mod (rpmFilterIndex st + 1) (rpmFilterSize st),
          accumulator := accumulator st + wrapDiff (n - count st),
                    count := n, lastUpdateTime := t \<rparr>)"
      using u(2) by (rule well_formed_frame) simp_all
    ultimately show ?thesis by auto
  qed
qed

lemma updates_well_formed:
  "well_formed st \<Longrightarrow>
   \<exists>st' w'. updates F ts (st, w) = Inr (st', w') \<and> well_formed st'
      \<and> rpmFilterSize st' = rpmFilterSize st"
proof (induction ts arbitrary: st w)
  case Nil
  then show ?case by simp
next
  case (Cons t ts)
  from updateCount_well_formed [OF Cons.prems, of F t w] obtain st1 w1 where
    1: "updateCount F t (st, w) = Inr (st1, w1)" "well_formed st1"
       "rpmFilterSize st1 = rpmFilterSize st" by blast
  from Cons.IH [OF 1(2), of w1] 1 show ?case by auto
qed

lemma well_formed_MT6701:
  assumes "0 < sint n"
  shows "well_formed (MT6701 F a u thr n)"
  using assms by (simp add: well_formed_def MT6701_def RPM_FILTER_SIZE_def word_sless_alt)

lemma rpmFilterSize_MT6701:
  "0 < sint n \<Longrightarrow> sint n \<le> 10 \<Longrightarrow> rpmFilterSize (MT6701 F a u thr n) = n"
  by (simp add: MT6701_def RPM_FILTER_SIZE_def word_sless_alt)

text \<open>
  Claim C10. For an object constructed with a filter size between 1 and \<open>RPM_FILTER_SIZE\<close>,
  every sequence of calls of \<open>updateCount\<close> runs without error and leaves the write index
  at least 0 and below the filter size in use, which is the size asked for and is not more
  than the length of the array: every write of the filter is inside its first
  \<open>rpmFilterSize\<close> slots.
\<close>

theorem filter_index_in_range:
  assumes "1 \<le> sint rpm_filter_size" "sint rpm_filter_size \<le> sint RPM_FILTER_SIZE"
  shows "\<exists>st' w'. updates F ts (MT6701 F a u thr rpm_filter_size, w) = Inr (st', w') \<and>
           rpmFilterSize st' = rpm_filter_size \<and>
           0 \<le> sint (rpmFilterIndex st') \<and>
           sint (rpmFilterIndex st') < sint (rpmFilterSize st') \<and>
           nat (sint (rpmFilterSize st')) \<le> length (rpmFilter st') \<and>
           length (rpmFilter st') = nat (sint RPM_FILTER_SIZE)"
proof -
  from assms have p: "0 < sint rpm_filter_size" "sint rpm_filter_size \<le> 10"
    by (simp_all add: RPM_FILTER_SIZE_def)
  have "well_formed (MT6701 F a u thr rpm_filter_size)"
    using p(1) by (rule well_formed_MT6701)
  from updates_well_formed [OF this]
  obtain st' w' where 1: "updates F ts (MT6701 F a u thr rpm_filter_size, w) = Inr (st', w')"
    "well_formed st'" "rpmFilterSize st' = rpmFilterSize (MT6701 F a u thr rpm_filter_size)"
    by blast
  from 1(3) p have "rpmFilterSize st' = rpm_filter_size" by (simp add: rpmFilterSize_MT6701)
  with 1(1,2) show ?thesis by (auto simp: well_formed_def)
qed

theorem filter_index_in_range_witness:
  "1 \<le> sint (3 :: cint) \<and> sint (3 :: cint) \<le> sint RPM_FILTER_SIZE \<and>
   (\<exists>st' w'. updates exact_ops [100, 200, 300, 400]
              (MT6701 exact_ops 6 50 1000 3, [[0, 40], [0, 80], [], [], [], [], [0, 120], [0, 160]])
            = Inr (st', w') \<and>
      rpmFilterSize st' = 3 \<and> 0 \<le> sint (rpmFilterIndex st') \<and>
      sint (rpmFilterIndex st') < sint (rpmFilterSize st') \<and>
      nat (sint (rpmFilterSize st')) \<le> length (rpmFilter st') \<and>
      length (rpmFilter st') = nat (sint RPM_FILTER_SIZE))"
proof -
  have a: "1 \<le> sint (3 :: cint)" by simp
  have b: "sint (3 :: cint) \<le> sint RPM_FILTER_SIZE" by (simp add: RPM_FILTER_SIZE_def)
  note t = filter_index_in_range [OF a b, of exact_ops "[100, 200, 300, 400]" 6 50 1000
      "[[0, 40], [0, 80], [], [], [], [], [0, 120], [0, 160]]"]
  from a b t show ?thesis by (intro conjI)
qed


section \<open>Wraparound\<close>

lemma getRPM_loop_frame:
  "rpmFilter st' = rpmFilter st \<Longrightarrow> rpmFilterSize st' = rpmFilterSize st \<Longrightarrow>
   getRPM_loop F st' i s = getRPM_loop F st i s"
proof (induction F st i s rule: getRPM_loop.induct)
  case (1 F st i s)
  show ?case
  proof (cases "i < sint (rpmFilterSize st) \<and> 0 \<le> i \<and> nat i < length (rpmFilter st)")
    case True
    with "1.IH" "1.prems" have
      "getRPM_loop F st' (i + 1) (f_add F s (rpmFilter st ! nat i))
       = getRPM_loop F st (i + 1) (f_add F s (rpmFilter st ! nat i))"
      by simp
    with True "1.prems" show ?thesis
      by (simp add: getRPM_loop.simps [of F st i] getRPM_loop.simps [of F st' i])
  next
    case False
    with "1.prems" show ?thesis
      by (auto simp: getRPM_loop.simps [of F st i] getRPM_loop.simps [of F st' i])
  qed
qed

lemma getRPM_frame:
  assumes "rpmFilter st' = rpmFilter st" and "rpmFilterSize st' = rpmFilterSize st"
  shows "getRPM F st' = getRPM F st"
proof -
  have "getRPM_loop F st' 0 (f_of_int F 0) = getRPM_loop F st 0 (f_of_int F 0)"
    using assms by (rule getRPM_loop_frame)
  then show ?thesis by (simp only: getRPM_def assms(2))
qed

lemma updateCount_sample:
  assumes "updateCount F t (st, w) = Inr (st', w')" "readWithRetries w = (n, w1)" "\<not> n <s 0"
  shows "accumulator st' = accumulator st + wrapDiff (n - count st)"
    and "count st' = n" and "lastUpdateTime st' = t" and "w' = w1"
  using assms
  by (auto simp: updateCount_def Let_def split: if_splits sum.splits
      dest: updateRPMFilter_position)

lemma wrapDiff_alt:
  "wrapDiff d = (if 8192 < sint d then d - 16384 else if sint d < - 8192 then d + 16384 else d)"
proof -
  have "sint (8192 :: cint) = 8192" "sint (- 8192 :: cint) = - 8192" by simp_all
  then show ?thesis
    unfolding wrapDiff_def cpr_half by (simp add: COUNTS_PER_REVOLUTION_def word_sless_alt)
qed

lemma wrapDiff_forward: "wrapDiff (- 16383) = 1"
  by (simp add: wrapDiff_alt)

lemma wrapDiff_backward: "wrapDiff 16383 = - 1"
  by (simp add: wrapDiff_alt)

lemma sint_incr: "sint (a :: cint) < 32767 \<Longrightarrow> sint (a + 1) = sint a + 1"
proof -
  assume b: "sint a < 32767"
  have "- 32768 \<le> sint a" using sint_ge [of a] by simp
  with b have "signed_take_bit 15 (sint a + 1) = sint a + 1"
    by (intro signed_take_bit_int_eq_self) simp_all
  then show ?thesis by (simp add: sint_word_ariths)
qed

lemma sint_decr: "- 32768 < sint (a :: cint) \<Longrightarrow> sint (a - 1) = sint a - 1"
proof -
  assume b: "- 32768 < sint a"
  have "sint a < 32768" using sint_lt [of a] by simp
  with b have "signed_take_bit 15 (sint a - 1) = sint a - 1"
    by (intro signed_take_bit_int_eq_self) simp_all
  then show ?thesis by (simp add: sint_word_ariths)
qed

text \<open>
  Claim C1. With 16384 counts in a revolution, a call that reads 0 when the stored count is
  16383 computes \<open>diff = 1\<close> and adds 1 to the accumulator; a call that reads 16383 when
  the stored count is 0 computes \<open>diff = -1\<close> and subtracts 1. The accumulator is a 16-bit
  \<open>int\<close>: the sum is the machine's, and it is the sum of the integers as long as the
  accumulator is not at the end of its range.
\<close>

theorem wraparound_correction:
  assumes "updateCount F t (st, w) = Inr (st', w')" and "readWithRetries w = (newCount, w1)"
  shows "(count st = 16383 \<and> newCount = 0 \<longrightarrow>
            wrapDiff (newCount - count st) = 1 \<and>
            accumulator st' = accumulator st + 1 \<and>
            (sint (accumulator st) < 32767 \<longrightarrow> sint (accumulator st') = sint (accumulator st) + 1) \<and>
            count st' = 0)
       \<and> (count st = 0 \<and> newCount = 16383 \<longrightarrow>
            wrapDiff (newCount - count st) = - 1 \<and>
            accumulator st' = accumulator st - 1 \<and>
            (- 32768 < sint (accumulator st) \<longrightarrow> sint (accumulator st') = sint (accumulator st) - 1) \<and>
            count st' = 16383)"
proof (intro conjI impI)
  assume h: "count st = 16383 \<and> newCount = 0"
  then have s: "\<not> newCount <s 0" by simp
  from h show d: "wrapDiff (newCount - count st) = 1" by (simp add: wrapDiff_forward)
  from updateCount_sample(1) [OF assms s] d
  show a: "accumulator st' = accumulator st + 1" by simp
  from updateCount_sample(2) [OF assms s] h show "count st' = 0" by simp
  assume "sint (accumulator st) < 32767"
  then show "sint (accumulator st') = sint (accumulator st) + 1" by (simp add: a sint_incr)
next
  assume h: "count st = 0 \<and> newCount = 16383"
  then have s: "\<not> newCount <s 0" by (simp add: word_sless_alt)
  from h show d: "wrapDiff (newCount - count st) = - 1" by (simp add: wrapDiff_backward)
  from updateCount_sample(1) [OF assms s] d
  show a: "accumulator st' = accumulator st - 1" by simp
  from updateCount_sample(2) [OF assms s] h show "count st' = 16383" by simp
  assume "- 32768 < sint (accumulator st)"
  then show "sint (accumulator st') = sint (accumulator st) - 1" by (simp add: a sint_decr)
qed

theorem wraparound_correction_witness:
  "updateCount exact_ops 100 (mt6701 exact_ops, [[255, 252]]) =
     Inr (\<lparr>address = 6, updateIntervalMillis = 50, lastUpdateTime = 100,
           count = 16383, accumulator = - 1, rpm = - (75 / 2048),
           rpmFilter = [- (75 / 2048), 0, 0, 0, 0, 0, 0, 0, 0, 0],
           rpmFilterIndex = 1, rpmFilterSize = 10, rpmThreshold = 1000\<rparr>, [])
   \<and> readWithRetries [[255, 252]] = (16383, [])
   \<and> count (mt6701 exact_ops) = 0
   \<and> wrapDiff (16383 - count (mt6701 exact_ops)) = - 1
   \<and> updateCount exact_ops 200
        (\<lparr>address = 6, updateIntervalMillis = 50, lastUpdateTime = 100,
           count = 16383, accumulator = - 1, rpm = - (75 / 2048),
           rpmFilter = [- (75 / 2048), 0, 0, 0, 0, 0, 0, 0, 0, 0],
           rpmFilterIndex = 1, rpmFilterSize = 10, rpmThreshold = 1000\<rparr>, [[0, 0]]) =
     Inr (\<lparr>address = 6, updateIntervalMillis = 50, lastUpdateTime = 200,
           count = 0, accumulator = 0, rpm = 75 / 2048,
           rpmFilter = [- (75 / 2048), 75 / 2048, 0, 0, 0, 0, 0, 0, 0, 0],
           rpmFilterIndex = 2, rpmFilterSize = 10, rpmThreshold = 1000\<rparr>, [])
   \<and> readWithRetries [[0, 0]] = (0, [])
   \<and> wrapDiff (0 - 16383) = 1"
proof -
  let ?s1 = "\<lparr>address = 6, updateIntervalMillis = 50, lastUpdateTime = 100,
           count = 16383, accumulator = - 1, rpm = - (75 / 2048 :: rat),
           rpmFilter = [- (75 / 2048), 0, 0, 0, 0, 0, 0, 0, 0, 0],
           rpmFilterIndex = 1, rpmFilterSize = 10, rpmThreshold = 1000\<rparr>"
  let ?s2 = "\<lparr>address = 6, updateIntervalMillis = 50, lastUpdateTime = 200,
           count = 0, accumulator = 0, rpm = (75 / 2048 :: rat),
           rpmFilter = [- (75 / 2048), 75 / 2048, 0, 0, 0, 0, 0, 0, 0, 0],
           rpmFilterIndex = 2, rpmFilterSize = 10, rpmThreshold = 1000\<rparr>"
  have a: "updateCount exact_ops 100 (mt6701 exact_ops, [[255, 252]]) = Inr (?s1, [])"
    by code_simp
  have b: "readWithRetries [[255, 252]] = (16383, [])" by code_simp
  have c: "count (mt6701 exact_ops) = 0" by code_simp
  have d: "updateCount exact_ops 200 (?s1, [[0, 0]]) = Inr (?s2, [])" by code_simp
  have e: "readWithRetries [[0, 0]] = (0, [])" by code_simp
  have f: "wrapDiff (16383 - count (mt6701 exact_ops)) = - 1"
    using wraparound_correction [OF a b] c by simp
  have g: "wrapDiff (0 - 16383) = 1"
    using wraparound_correction [OF d e] by simp
  from a b c f d e g show ?thesis by (intro conjI)
qed

section \<open>Half a revolution\<close>

lemma wrapDiff_fixed_iff: "wrapDiff d = d \<longleftrightarrow> - 8192 \<le> sint d \<and> sint d \<le> 8192"
proof -
  have "d - 16384 \<noteq> d" "d + 16384 \<noteq> d" by simp_all
  then show ?thesis by (auto simp: wrapDiff_alt)
qed

text \<open>
  Claim C4. A difference of exactly half a revolution, \<open>COUNTS_PER_REVOLUTION / 2\<close>, is not
  corrected, and neither is \<open>-COUNTS_PER_REVOLUTION / 2\<close>: \<open>diff\<close> is changed if and only
  if it is strictly above the first or strictly below the second. A call that reads a sample
  at such a difference from the stored count adds the difference as it is.
\<close>

theorem half_revolution_boundary:
  "wrapDiff (c_div COUNTS_PER_REVOLUTION 2) = c_div COUNTS_PER_REVOLUTION 2
   \<and> wrapDiff (c_div (- COUNTS_PER_REVOLUTION) 2) = c_div (- COUNTS_PER_REVOLUTION) 2
   \<and> (wrapDiff d \<noteq> d \<longleftrightarrow>
        c_div COUNTS_PER_REVOLUTION 2 <s d \<or> d <s c_div (- COUNTS_PER_REVOLUTION) 2)
   \<and> (updateCount F t (st, w) = Inr (st', w') \<and> readWithRetries w = (newCount, w1) \<and>
        \<not> newCount <s 0 \<and>
        (newCount - count st = c_div COUNTS_PER_REVOLUTION 2 \<or>
         newCount - count st = c_div (- COUNTS_PER_REVOLUTION) 2)
        \<longrightarrow> accumulator st' = accumulator st + (newCount - count st))"
proof (intro conjI impI)
  show "wrapDiff (c_div COUNTS_PER_REVOLUTION 2) = c_div COUNTS_PER_REVOLUTION 2"
    by (simp add: cpr_half wrapDiff_alt)
  show m: "wrapDiff (c_div (- COUNTS_PER_REVOLUTION) 2) = c_div (- COUNTS_PER_REVOLUTION) 2"
    by (simp add: cpr_half wrapDiff_alt)
  have s: "sint (8192 :: cint) = 8192" "sint (- 8192 :: cint) = - 8192" by simp_all
  show "wrapDiff d \<noteq> d \<longleftrightarrow>
        c_div COUNTS_PER_REVOLUTION 2 <s d \<or> d <s c_div (- COUNTS_PER_REVOLUTION) 2"
    unfolding cpr_half word_sless_alt s wrapDiff_fixed_iff by auto
next
  assume h: "updateCount F t (st, w) = Inr (st', w') \<and> readWithRetries w = (newCount, w1) \<and>
        \<not> newCount <s 0 \<and>
        (newCount - count st = c_div COUNTS_PER_REVOLUTION 2 \<or>
         newCount - count st = c_div (- COUNTS_PER_REVOLUTION) 2)"
  then have a: "accumulator st' = accumulator st + wrapDiff (newCount - count st)"
    by (intro updateCount_sample(1) [of F t st w st' w' newCount w1]) simp_all
  from h have "newCount - count st = 8192 \<or> newCount - count st = - 8192"
    by (simp only: cpr_half)
  then have "wrapDiff (newCount - count st) = newCount - count st"
    by (auto simp: wrapDiff_alt)
  with a show "accumulator st' = accumulator st + (newCount - count st)" by simp
qed

theorem half_revolution_boundary_witness:
  "updateCount exact_ops 100 (mt6701 exact_ops, [[128, 0]]) =
     Inr ((mt6701 exact_ops)\<lparr>lastUpdateTime := 100, count := 8192, accumulator := 8192,
            rpm := 300, rpmFilter := [300, 0, 0, 0, 0, 0, 0, 0, 0, 0], rpmFilterIndex := 1\<rparr>, [])
   \<and> readWithRetries [[128, 0]] = (8192, [])
   \<and> \<not> (8192 :: cint) <s 0
   \<and> 8192 - count (mt6701 exact_ops) = c_div COUNTS_PER_REVOLUTION 2
   \<and> accumulator ((mt6701 exact_ops)\<lparr>lastUpdateTime := 100, count := 8192,
          accumulator := 8192, rpm := 300, rpmFilter := [300, 0, 0, 0, 0, 0, 0, 0, 0, 0],
          rpmFilterIndex := 1\<rparr>)
       = accumulator (mt6701 exact_ops) + (8192 - count (mt6701 exact_ops))
   \<and> updateCount exact_ops 200
        ((mt6701 exact_ops)\<lparr>lastUpdateTime := 100, count := 8192, accumulator := 8192,
            rpm := 300, rpmFilter := [300, 0, 0, 0, 0, 0, 0, 0, 0, 0], rpmFilterIndex := 1\<rparr>,
         [[0, 0]]) =
     Inr ((mt6701 exact_ops)\<lparr>lastUpdateTime := 200, count := 0, accumulator := 0,
            rpm := - 300, rpmFilter := [300, - 300, 0, 0, 0, 0, 0, 0, 0, 0],
            rpmFilterIndex := 2\<rparr>, [])
   \<and> readWithRetries [[0, 0]] = (0, [])
   \<and> \<not> (0 :: cint) <s 0
   \<and> 0 - count ((mt6701 exact_ops)\<lparr>lastUpdateTime := 100, count := 8192,
          accumulator := 8192, rpm := 300, rpmFilter := [300, 0, 0, 0, 0, 0, 0, 0, 0, 0],
          rpmFilterIndex := 1\<rparr>) = c_div (- COUNTS_PER_REVOLUTION) 2
   \<and> accumulator ((mt6701 exact_ops)\<lparr>lastUpdateTime := 200, count := 0, accumulator := 0,
            rpm := - 300, rpmFilter := [300, - 300, 0, 0, 0, 0, 0, 0, 0, 0],
            rpmFilterIndex := 2\<rparr>)
       = accumulator ((mt6701 exact_ops)\<lparr>lastUpdateTime := 100, count := 8192,
          accumulator := 8192, rpm := 300, rpmFilter := [300, 0, 0, 0, 0, 0, 0, 0, 0, 0],
          rpmFilterIndex := 1\<rparr>)
         + (0 - count ((mt6701 exact_ops)\<lparr>lastUpdateTime := 100, count := 8192,
          accumulator := 8192, rpm := 300, rpmFilter := [300, 0, 0, 0, 0, 0, 0, 0, 0, 0],
          rpmFilterIndex := 1\<rparr>))"
proof -
  let ?s0 = "mt6701 exact_ops"
  let ?s1 = "?s0\<lparr>lastUpdateTime := 100, count := 8192, accumulator := 8192,
            rpm := 300, rpmFilter := [300, 0, 0, 0, 0, 0, 0, 0, 0, 0], rpmFilterIndex := 1\<rparr>"
  let ?s2 = "?s0\<lparr>lastUpdateTime := 200, count := 0, accumulator := 0,
            rpm := - 300, rpmFilter := [300, - 300, 0, 0, 0, 0, 0, 0, 0, 0],
            rpmFilterIndex := 2\<rparr>"
  have a1: "updateCount exact_ops 100 (?s0, [[128, 0]]) = Inr (?s1, [])" by code_simp
  have b1: "readWithRetries [[128, 0]] = (8192, [])" by code_simp
  have c1: "\<not> (8192 :: cint) <s 0" by code_simp
  have d1: "8192 - count ?s0 = c_div COUNTS_PER_REVOLUTION 2" by code_simp
  have a2: "updateCount exact_ops 200 (?s1, [[0, 0]]) = Inr (?s2, [])" by code_simp
  have b2: "readWithRetries [[0, 0]] = (0, [])" by code_simp
  have c2: "\<not> (0 :: cint) <s 0" by simp
  have d2: "0 - count ?s1 = c_div (- COUNTS_PER_REVOLUTION) 2" by code_simp
  note t = half_revolution_boundary [THEN conjunct2, THEN conjunct2, THEN conjunct2, THEN mp]
  have e1: "accumulator ?s1 = accumulator ?s0 + (8192 - count ?s0)"
    by (rule t [OF conjI [OF a1 conjI [OF b1 conjI [OF c1 disjI1 [OF d1]]]]])
  have e2: "accumulator ?s2 = accumulator ?s1 + (0 - count ?s1)"
    by (rule t [OF conjI [OF a2 conjI [OF b2 conjI [OF c2 disjI2 [OF d2]]]]])
  from a1 b1 c1 d1 e1 a2 b2 c2 d2 e2 show ?thesis by (intro conjI)
qed

section \<open>Calls that do not write the filter\<close>

text \<open>
  Claim C5. When a call reads a sample and \<open>millis()\<close> is equal to \<open>lastUpdateTime\<close>, the
  call returns without error, the rate is not computed (\<open>rpm\<close>, the filter, its index and
  so \<open>getRPM\<close> are as before), and the accumulator, the count and the time are updated.
\<close>

theorem zero_elapsed_time:
  assumes "readWithRetries w = (newCount, w1)" and "\<not> newCount <s 0"
    and "t - lastUpdateTime st = 0"
  shows "\<exists>st'. updateCount F t (st, w) = Inr (st', w1) \<and>
           rpm st' = rpm st \<and> rpmFilter st' = rpmFilter st \<and>
           rpmFilterIndex st' = rpmFilterIndex st \<and> getRPM F st' = getRPM F st \<and>
           accumulator st' = accumulator st + wrapDiff (newCount - count st) \<and>
           count st' = newCount \<and> lastUpdateTime st' = t"
proof -
  let ?st' = "st\<lparr> accumulator := accumulator st + wrapDiff (newCount - count st),
                  count := newCount, lastUpdateTime := t \<rparr>"
  from assms(3) have e: "t = lastUpdateTime st" by simp
  have u: "updateCount F t (st, w) = Inr (?st', w1)"
    using assms(1,2) e by (rule updateCount_zero_elapsed)
  have g: "getRPM F ?st' = getRPM F st" by (rule getRPM_frame) simp_all
  show ?thesis
    by (rule exI [of _ ?st']) (simp add: u g)
qed

theorem zero_elapsed_time_witness:
  "readWithRetries [[0, 40]] = (10, [])
   \<and> \<not> (10 :: cint) <s 0
   \<and> 0 - lastUpdateTime (mt6701 exact_ops) = 0
   \<and> (\<exists>st'. updateCount exact_ops 0 (mt6701 exact_ops, [[0, 40]]) = Inr (st', []) \<and>
           rpm st' = rpm (mt6701 exact_ops) \<and> rpmFilter st' = rpmFilter (mt6701 exact_ops) \<and>
           rpmFilterIndex st' = rpmFilterIndex (mt6701 exact_ops) \<and>
           getRPM exact_ops st' = getRPM exact_ops (mt6701 exact_ops) \<and>
           accumulator st' = accumulator (mt6701 exact_ops)
                             + wrapDiff (10 - count (mt6701 exact_ops)) \<and>
           count st' = 10 \<and> lastUpdateTime st' = 0)"
proof -
  have a: "readWithRetries [[0, 40]] = (10, [])" by code_simp
  have b: "\<not> (10 :: cint) <s 0" by code_simp
  have c: "0 - lastUpdateTime (mt6701 exact_ops) = 0" by code_simp
  from a b c zero_elapsed_time [OF a b c, of exact_ops] show ?thesis by (intro conjI)
qed

text \<open>
  Claim C9, as the code has it. When a call reads a sample after a positive time and the
  rate is not below the threshold, the filter, its index and \<open>getRPM\<close> are as before, the
  field \<open>rpm\<close> holds the rejected rate, and the accumulator, the count and the time are
  updated.
\<close>

theorem rejected_sample_frame:
  assumes "readWithRetries w = (newCount, w1)" and "\<not> newCount <s 0"
    and "0 < t - lastUpdateTime st"
    and "r = rate F (wrapDiff (newCount - count st)) (t - lastUpdateTime st)"
    and "\<not> f_less F (f_abs F r) (f_of_int F (sint (rpmThreshold st)))"
  shows "\<exists>st'. updateCount F t (st, w) = Inr (st', w1) \<and>
           rpmFilter st' = rpmFilter st \<and> rpmFilterIndex st' = rpmFilterIndex st \<and>
           getRPM F st' = getRPM F st \<and>
           rpm st' = r \<and>
           accumulator st' = accumulator st + wrapDiff (newCount - count st) \<and>
           count st' = newCount \<and> lastUpdateTime st' = t"
proof -
  let ?st' = "st\<lparr> rpm := r, accumulator := accumulator st + wrapDiff (newCount - count st),
                  count := newCount, lastUpdateTime := t \<rparr>"
  from assms(3) have e: "t \<noteq> lastUpdateTime st" by auto
  have u: "updateCount F t (st, w) = Inr (?st', w1)"
    using assms(1,2) e assms(4,5) by (rule updateCount_rejected)
  have g: "getRPM F ?st' = getRPM F st" by (rule getRPM_frame) simp_all
  show ?thesis
    by (rule exI [of _ ?st']) (simp add: u g)
qed

theorem rejected_sample_frame_witness:
  "readWithRetries [[128, 0]] = (8192, [])
   \<and> \<not> (8192 :: cint) <s 0
   \<and> 0 < 1 - lastUpdateTime (mt6701 exact_ops)
   \<and> 30000 = rate exact_ops (wrapDiff (8192 - count (mt6701 exact_ops)))
                 (1 - lastUpdateTime (mt6701 exact_ops))
   \<and> \<not> f_less exact_ops (f_abs exact_ops 30000)
          (f_of_int exact_ops (sint (rpmThreshold (mt6701 exact_ops))))
   \<and> (\<exists>st'. updateCount exact_ops 1 (mt6701 exact_ops, [[128, 0]]) = Inr (st', []) \<and>
           rpmFilter st' = rpmFilter (mt6701 exact_ops) \<and>
           rpmFilterIndex st' = rpmFilterIndex (mt6701 exact_ops) \<and>
           getRPM exact_ops st' = getRPM exact_ops (mt6701 exact_ops) \<and>
           rpm st' = 30000 \<and>
           accumulator st' = accumulator (mt6701 exact_ops)
                             + wrapDiff (8192 - count (mt6701 exact_ops)) \<and>
           count st' = 8192 \<and> lastUpdateTime st' = 1)"
proof -
  have a: "readWithRetries [[128, 0]] = (8192, [])" by code_simp
  have b: "\<not> (8192 :: cint) <s 0" by code_simp
  have c: "0 < 1 - lastUpdateTime (mt6701 exact_ops)" by code_simp
  have d: "30000 = rate exact_ops (wrapDiff (8192 - count (mt6701 exact_ops)))
                 (1 - lastUpdateTime (mt6701 exact_ops))" by code_simp
  have e: "\<not> f_less exact_ops (f_abs exact_ops 30000)
          (f_of_int exact_ops (sint (rpmThreshold (mt6701 exact_ops))))" by code_simp
  from a b c d e rejected_sample_frame [OF a b c d e] show ?thesis by (intro conjI)
qed

text \<open>
  The claim as the specification states it says that the rejected rate leaves the stored
  rate as it was. The code assigns \<open>rpm\<close> before it tests the threshold: the constructed
  object that reads 8192 after one millisecond computes 30000 revolutions a minute (every
  step is exact in binary floating point), rejects it, and holds it in \<open>rpm\<close>.
\<close>

theorem rejected_sample_overwrites_rpm:
  "readWithRetries [[128, 0]] = (8192, [])
   \<and> \<not> (8192 :: cint) <s 0
   \<and> 0 < 1 - lastUpdateTime (mt6701 exact_ops)
   \<and> rate exact_ops (wrapDiff (8192 - count (mt6701 exact_ops)))
         (1 - lastUpdateTime (mt6701 exact_ops)) = 30000
   \<and> \<not> f_less exact_ops (f_abs exact_ops 30000)
          (f_of_int exact_ops (sint (rpmThreshold (mt6701 exact_ops))))
   \<and> updateCount exact_ops 1 (mt6701 exact_ops, [[128, 0]]) =
       Inr ((mt6701 exact_ops)\<lparr>lastUpdateTime := 1, count := 8192, accumulator := 8192,
              rpm := 30000\<rparr>, [])
   \<and> rpm ((mt6701 exact_ops)\<lparr>lastUpdateTime := 1, count := 8192, accumulator := 8192,
              rpm := 30000\<rparr>) \<noteq> rpm (mt6701 exact_ops)"
  by (intro conjI; code_simp)

lemma updateCount_filter:
  assumes "updateCount F t (st, w) = Inr (st', w')"
  shows "rpmThreshold st' = rpmThreshold st \<and> rpmFilterSize st' = rpmFilterSize st \<and>
         ((rpmFilter st' = rpmFilter st \<and> rpmFilterIndex st' = rpmFilterIndex st) \<or>
          (\<exists>r. f_less F (f_abs F r) (f_of_int F (sint (rpmThreshold st))) \<and>
               rpmFilter st' = (rpmFilter st)[nat (sint (rpmFilterIndex st)) := r]))"
proof -
  obtain n w1 where r: "readWithRetries w = (n, w1)" by (cases "readWithRetries w")
  let ?r = "rate F (wrapDiff (n - count st)) (t - lastUpdateTime st)"
  consider (none) "n <s 0"
    | (zero) "\<not> n <s 0" "t = lastUpdateTime st"
    | (rejected) "\<not> n <s 0" "t \<noteq> lastUpdateTime st"
        "\<not> f_less F (f_abs F ?r) (f_of_int F (sint (rpmThreshold st)))"
    | (accepted) "\<not> n <s 0" "t \<noteq> lastUpdateTime st"
        "f_less F (f_abs F ?r) (f_of_int F (sint (rpmThreshold st)))"
    by blast
  then show ?thesis
  proof cases
    case none
    with r assms show ?thesis by (simp add: updateCount_no_sample)
  next
    case zero
    from updateCount_zero_elapsed [OF r zero, of F] assms show ?thesis by auto
  next
    case rejected
    from updateCount_rejected [OF r rejected(1,2) refl rejected(3)] assms show ?thesis by auto
  next
    case accepted
    from updateCount_accepted [OF r accepted(1,2) refl accepted(3)] assms
    obtain st2 where 2: "updateRPMFilter (st\<lparr> rpm := ?r \<rparr>) ?r = Inr st2"
      and 3: "st' = st2\<lparr> accumulator := accumulator st2 + wrapDiff (n - count st),
                    count := n, lastUpdateTime := t \<rparr>"
      by (auto split: sum.splits)
    from 2 have "rpmFilter st2 = (rpmFilter st)[nat (sint (rpmFilterIndex st)) := ?r]"
      "rpmThreshold st2 = rpmThreshold st" "rpmFilterSize st2 = rpmFilterSize st"
      by (auto simp: updateRPMFilter_def split: if_splits)
    with 3 accepted(3) show ?thesis by auto
  qed
qed

lemma updateCount_accepted_only:
  assumes "updateCount F t (st, w) = Inr (st', w')" and "accepted_only F thr st"
  shows "accepted_only F thr st'"
proof -
  note f = updateCount_filter [OF assms(1)]
  from f assms(2) have thr: "rpmThreshold st' = thr" by (simp add: accepted_only_def)
  from f consider (same) "rpmFilter st' = rpmFilter st"
    | (written) r where "f_less F (f_abs F r) (f_of_int F (sint (rpmThreshold st)))"
        "rpmFilter st' = (rpmFilter st)[nat (sint (rpmFilterIndex st)) := r]"
    by blast
  then show ?thesis
  proof cases
    case same
    with assms(2) thr show ?thesis by (simp add: accepted_only_def)
  next
    case written
    have "set (rpmFilter st') \<subseteq> insert r (set (rpmFilter st))"
      unfolding written(2) by (rule set_update_subset_insert)
    with assms(2) written(1) thr show ?thesis
      by (auto simp: accepted_only_def)
  qed
qed

lemma updates_accepted_only:
  "updates F ts sw = Inr sw' \<Longrightarrow> accepted_only F thr (fst sw) \<Longrightarrow>
   accepted_only F thr (fst sw')"
proof (induction ts arbitrary: sw)
  case Nil
  then show ?case by simp
next
  case (Cons t ts)
  from Cons.prems(1) obtain sw1 where 1: "updateCount F t sw = Inr sw1"
    and 2: "updates F ts sw1 = Inr sw'"
    by (auto split: sum.splits)
  from 1 Cons.prems(2) have "accepted_only F thr (fst sw1)"
    by (cases sw; cases sw1) (auto dest: updateCount_accepted_only)
  with 2 show ?case by (rule Cons.IH)
qed

lemma accepted_only_MT6701: "accepted_only F thr (MT6701 F a u thr n)"
  by (simp add: accepted_only_def MT6701_def)

text \<open>
  Claim C6. A call whose rate is not below the threshold leaves the filter, its index and
  \<open>getRPM\<close> as they were (whether or not a sample was read and time has passed); and after
  any sequence of calls from the constructed object, every slot of the filter holds the
  initial \<open>0.0f\<close> or a rate whose absolute value is below the threshold. The test of the
  code is \<open>abs(rpm) < rpmThreshold\<close>: a rate for which it is false, NaN included, is
  never written.
\<close>

theorem outlier_rejection:
  "(updateCount F t (st, w) = Inr (st', w') \<and> readWithRetries w = (newCount, w1) \<and>
    \<not> f_less F (f_abs F (rate F (wrapDiff (newCount - count st)) (t - lastUpdateTime st)))
               (f_of_int F (sint (rpmThreshold st)))
    \<longrightarrow> rpmFilter st' = rpmFilter st \<and> rpmFilterIndex st' = rpmFilterIndex st \<and>
        getRPM F st' = getRPM F st)
   \<and> (updates F ts (MT6701 F a u thr n, w0) = Inr (st'', w'')
    \<longrightarrow> (\<forall>x \<in> set (rpmFilter st'').
           x = f_lit F 0 \<or> f_less F (f_abs F x) (f_of_int F (sint thr))))"
proof (intro conjI impI)
  assume h: "updateCount F t (st, w) = Inr (st', w') \<and> readWithRetries w = (newCount, w1) \<and>
    \<not> f_less F (f_abs F (rate F (wrapDiff (newCount - count st)) (t - lastUpdateTime st)))
               (f_of_int F (sint (rpmThreshold st)))"
  then have u: "updateCount F t (st, w) = Inr (st', w')"
    and r: "readWithRetries w = (newCount, w1)"
    and n: "\<not> f_less F (f_abs F (rate F (wrapDiff (newCount - count st)) (t - lastUpdateTime st)))
               (f_of_int F (sint (rpmThreshold st)))"
    by simp_all
  have 1: "rpmFilter st' = rpmFilter st \<and> rpmFilterIndex st' = rpmFilterIndex st
           \<and> rpmFilterSize st' = rpmFilterSize st"
  proof (cases "newCount <s 0")
    case True
    from updateCount_no_sample [OF r True, of F t st] u show ?thesis by simp
  next
    case False
    show ?thesis
    proof (cases "t = lastUpdateTime st")
      case True
      from updateCount_zero_elapsed [OF r False True, of F] u show ?thesis by auto
    next
      case ne: False
      from updateCount_rejected [OF r False ne refl n] u show ?thesis by auto
    qed
  qed
  then show "rpmFilter st' = rpmFilter st" and "rpmFilterIndex st' = rpmFilterIndex st"
    by simp_all
  from 1 show "getRPM F st' = getRPM F st" by (intro getRPM_frame) simp_all
next
  assume "updates F ts (MT6701 F a u thr n, w0) = Inr (st'', w'')"
  then have "accepted_only F thr (fst (st'', w''))"
    by (rule updates_accepted_only) (simp add: accepted_only_MT6701)
  then show "\<forall>x \<in> set (rpmFilter st'').
           x = f_lit F 0 \<or> f_less F (f_abs F x) (f_of_int F (sint thr))"
    by (simp add: accepted_only_def)
qed

theorem outlier_rejection_witness:
  "updateCount exact_ops 1 (mt6701 exact_ops, [[128, 0]]) =
     Inr ((mt6701 exact_ops)\<lparr>lastUpdateTime := 1, count := 8192, accumulator := 8192,
            rpm := 30000\<rparr>, [])
   \<and> readWithRetries [[128, 0]] = (8192, [])
   \<and> \<not> f_less exact_ops
         (f_abs exact_ops (rate exact_ops (wrapDiff (8192 - count (mt6701 exact_ops)))
            (1 - lastUpdateTime (mt6701 exact_ops))))
         (f_of_int exact_ops (sint (rpmThreshold (mt6701 exact_ops))))
   \<and> rpmFilter ((mt6701 exact_ops)\<lparr>lastUpdateTime := 1, count := 8192, accumulator := 8192,
            rpm := 30000\<rparr>) = rpmFilter (mt6701 exact_ops)
   \<and> getRPM exact_ops ((mt6701 exact_ops)\<lparr>lastUpdateTime := 1, count := 8192,
            accumulator := 8192, rpm := 30000\<rparr>) = getRPM exact_ops (mt6701 exact_ops)
   \<and> updates exact_ops [1, 101] (MT6701 exact_ops 6 50 1000 10, [[128, 0], [128, 40]]) =
     Inr (\<lparr>address = 6, updateIntervalMillis = 50, lastUpdateTime = 101,
           count = 8202, accumulator = 8202, rpm = 375 / 1024,
           rpmFilter = [375 / 1024, 0, 0, 0, 0, 0, 0, 0, 0, 0],
           rpmFilterIndex = 1, rpmFilterSize = 10, rpmThreshold = 1000\<rparr>, [])
   \<and> list_all (\<lambda>x. x = f_lit exact_ops 0 \<or>
         f_less exact_ops (f_abs exact_ops x) (f_of_int exact_ops (sint (1000 :: cint))))
        [375 / 1024, 0, 0, 0, 0, 0, 0, 0, 0, 0]"
proof -
  let ?s0 = "mt6701 exact_ops"
  let ?s1 = "?s0\<lparr>lastUpdateTime := 1, count := 8192, accumulator := 8192, rpm := 30000\<rparr>"
  let ?s2 = "\<lparr>address = 6, updateIntervalMillis = 50, lastUpdateTime = 101,
           count = 8202, accumulator = 8202, rpm = 375 / 1024 :: rat,
           rpmFilter = [375 / 1024, 0, 0, 0, 0, 0, 0, 0, 0, 0],
           rpmFilterIndex = 1, rpmFilterSize = 10, rpmThreshold = 1000\<rparr>"
  have a: "updateCount exact_ops 1 (?s0, [[128, 0]]) = Inr (?s1, [])" by code_simp
  have b: "readWithRetries [[128, 0]] = (8192, [])" by code_simp
  have c: "\<not> f_less exact_ops
         (f_abs exact_ops (rate exact_ops (wrapDiff (8192 - count ?s0))
            (1 - lastUpdateTime ?s0)))
         (f_of_int exact_ops (sint (rpmThreshold ?s0)))" by code_simp
  have d: "updates exact_ops [1, 101] (MT6701 exact_ops 6 50 1000 10, [[128, 0], [128, 40]])
           = Inr (?s2, [])" by code_simp
  note t1 = outlier_rejection [THEN conjunct1, THEN mp, OF conjI [OF a conjI [OF b c]]]
  note t2 = outlier_rejection [THEN conjunct2, THEN mp, OF d]
  have e: "rpmFilter ?s1 = rpmFilter ?s0" by (rule t1 [THEN conjunct1])
  have f: "getRPM exact_ops ?s1 = getRPM exact_ops ?s0"
    by (rule t1 [THEN conjunct2, THEN conjunct2])
  from t2 have g: "\<forall>x \<in> set [375 / 1024, 0, 0, 0, 0, 0, 0, 0, 0, 0].
         x = f_lit exact_ops 0 \<or>
         f_less exact_ops (f_abs exact_ops x) (f_of_int exact_ops (sint (1000 :: cint)))"
    by (simp only: MT6701_state.simps)
  then have g': "list_all (\<lambda>x. x = f_lit exact_ops 0 \<or>
         f_less exact_ops (f_abs exact_ops x) (f_of_int exact_ops (sint (1000 :: cint))))
        [375 / 1024, 0, 0, 0, 0, 0, 0, 0, 0, 0]"
    by (simp only: list_all_iff)
  from a b c e f d g' show ?thesis by (intro conjI)
qed

section \<open>Failed reads and retries\<close>

lemma minus_one_negative: "(- 1 :: cint) <s 0"
  by (simp add: word_sless_alt)

lemma readCount_short:
  assumes "\<forall>r \<in> set (take 1 w). length r < 2"
  shows "readCount w = (- 1, drop 1 w)"
proof (cases w)
  case Nil
  then show ?thesis by (simp add: readCount_def)
next
  case (Cons reply rest)
  with assms have "length reply < 2" by simp
  then have "reply = [] \<or> (\<exists>x. reply = [x])"
    by (cases reply) (auto simp: length_Suc_conv)
  with Cons show ?thesis by (auto simp: readCount_def)
qed

lemma readCount_full:
  assumes "k < length w" and "2 \<le> length (w ! k)"
  shows "\<exists>v. readCount (drop k w) = (v, drop (Suc k) w) \<and> v < 16384"
proof -
  from assms(1) have d: "drop k w = w ! k # drop (Suc k) w"
    by (simp add: Cons_nth_drop_Suc)
  from assms(2) obtain h l rest where r: "w ! k = h # l # rest"
    by (cases "w ! k"; cases "tl (w ! k)") auto
  show ?thesis unfolding d by (simp add: readCount_def r raw_lt)
qed

lemma retry_settled: "\<not> v <s 0 \<Longrightarrow> retry i v w = (v, w)"
  by (simp add: retry.simps [of i])

lemma retry_exhausted: "retry 3 v w = (v, w)"
  by (simp add: retry.simps [of 3])

lemma retry_all_short:
  "3 - i = k \<Longrightarrow> i \<le> 3 \<Longrightarrow> \<forall>r \<in> set (take k w). length r < 2 \<Longrightarrow>
   retry i (- 1) w = (- 1, drop k w)"
proof (induction k arbitrary: i w)
  case 0
  then have "i = 3" by simp
  then show ?case by (simp add: retry_exhausted)
next
  case (Suc k)
  from Suc.prems(1) have i: "i < 3" "3 - Suc i = k" "Suc i \<le> 3" by simp_all
  have "\<forall>r \<in> set (take 1 w). length r < 2"
    using Suc.prems(3) by (cases w) auto
  then have r: "readCount w = (- 1, drop 1 w)" by (rule readCount_short)
  have "\<forall>r \<in> set (take k (drop 1 w)). length r < 2"
    using Suc.prems(3) by (cases w) auto
  with Suc.IH [OF i(2,3)] have "retry (Suc i) (- 1) (drop 1 w) = (- 1, drop k (drop 1 w))"
    by blast
  with i(1) r show ?case by (simp add: retry.simps [of i] minus_one_negative)
qed

lemma retry_first_full:
  "i + k < 3 \<Longrightarrow> k < length w \<Longrightarrow> \<forall>r \<in> set (take k w). length r < 2 \<Longrightarrow>
   2 \<le> length (w ! k) \<Longrightarrow>
   retry i (- 1) w = (fst (readCount (drop k w)), drop (Suc k) w)"
proof (induction k arbitrary: i w)
  case 0
  from readCount_full [OF "0.prems"(2,4)] obtain v
    where v: "readCount w = (v, drop (Suc 0) w)" "v < 16384" by auto
  from v(2) have "\<not> v <s 0" by (rule small_not_negative)
  then have "retry (Suc i) v (drop (Suc 0) w) = (v, drop (Suc 0) w)" by (rule retry_settled)
  with "0.prems"(1) v show ?case by (simp add: retry.simps [of i] minus_one_negative)
next
  case (Suc k)
  from Suc.prems(2) obtain x xs where w: "w = x # xs" by (cases w) auto
  have "\<forall>r \<in> set (take 1 w). length r < 2"
    using Suc.prems(3) w by auto
  then have r: "readCount w = (- 1, xs)" using w by (simp add: readCount_short)
  have "retry (Suc i) (- 1) xs = (fst (readCount (drop k xs)), drop (Suc k) xs)"
    using Suc.prems w by (intro Suc.IH) auto
  with Suc.prems(1) r w show ?case by (simp add: retry.simps [of i] minus_one_negative)
qed

lemma readWithRetries_all_short:
  assumes "\<forall>r \<in> set (take 4 w). length r < 2"
  shows "readWithRetries w = (- 1, drop 4 w)"
proof -
  have "\<forall>r \<in> set (take 1 w). length r < 2" using assms by (cases w) auto
  then have r: "readCount w = (- 1, drop 1 w)" by (rule readCount_short)
  have "\<forall>r \<in> set (take 3 (drop 1 w)). length r < 2" using assms by (cases w) auto
  then have "retry 0 (- 1) (drop 1 w) = (- 1, drop 3 (drop 1 w))"
    by (intro retry_all_short) simp_all
  with r show ?thesis by (simp add: readWithRetries_def)
qed

lemma readWithRetries_first_full:
  assumes "k < 4" and "k < length w" and "\<forall>r \<in> set (take k w). length r < 2"
    and "2 \<le> length (w ! k)"
  shows "readWithRetries w = (fst (readCount (drop k w)), drop (Suc k) w)"
proof (cases k)
  case 0
  from readCount_full [OF assms(2,4)] 0 obtain v
    where v: "readCount w = (v, drop (Suc 0) w)" "v < 16384" by auto
  from v(2) have "\<not> v <s 0" by (rule small_not_negative)
  then have "retry 0 v (drop (Suc 0) w) = (v, drop (Suc 0) w)" by (rule retry_settled)
  with v 0 show ?thesis by (simp add: readWithRetries_def)
next
  case (Suc j)
  from assms(2) obtain x xs where w: "w = x # xs" by (cases w) auto
  have "\<forall>r \<in> set (take 1 w). length r < 2" using assms(3) w Suc by auto
  then have r: "readCount w = (- 1, xs)" using w by (simp add: readCount_short)
  have "retry 0 (- 1) xs = (fst (readCount (drop j xs)), drop (Suc j) xs)"
    using assms w Suc by (intro retry_first_full) auto
  with r w Suc show ?thesis by (simp add: readWithRetries_def)
qed

text \<open>
  Claim C3. A reply of fewer than two bytes is a failed read. When the first four replies
  fail (or the bus has nothing more to deliver), the four reads consume them, and
  \<open>updateCount\<close> returns the object as it was: every accessor gives what it gave before.
  When the reply number \<open>k\<close> (from 0, below 4) is the first with two bytes, the reads stop
  there, with \<open>k + 1\<close> replies consumed and a sample that is not negative.
\<close>

theorem failed_poll_is_noop:
  "((\<forall>r \<in> set (take 4 w). length r < 2) \<longrightarrow>
      readWithRetries w = (- 1, drop 4 w) \<and>
      (\<exists>st' w'. updateCount F t (st, w) = Inr (st', w') \<and> w' = drop 4 w \<and> st' = st \<and>
         getAngleRadians F st' = getAngleRadians F st \<and>
         getAngleDegrees F st' = getAngleDegrees F st \<and>
         getFullTurns st' = getFullTurns st \<and> getTurns F st' = getTurns F st \<and>
         getAccumulator st' = getAccumulator st \<and> getRPM F st' = getRPM F st \<and>
         getCount st' = getCount st))
   \<and> (k < 4 \<and> k < length w \<and> (\<forall>r \<in> set (take k w). length r < 2) \<and> 2 \<le> length (w ! k) \<longrightarrow>
      readWithRetries w = (fst (readCount (drop k w)), drop (Suc k) w) \<and>
      \<not> fst (readCount (drop k w)) <s 0)"
proof (intro conjI impI)
  assume a: "\<forall>r \<in> set (take 4 w). length r < 2"
  then show r: "readWithRetries w = (- 1, drop 4 w)" by (rule readWithRetries_all_short)
  have "updateCount F t (st, w) = Inr (st, drop 4 w)"
    using r minus_one_negative by (rule updateCount_no_sample)
  then show "\<exists>st' w'. updateCount F t (st, w) = Inr (st', w') \<and> w' = drop 4 w \<and> st' = st \<and>
         getAngleRadians F st' = getAngleRadians F st \<and>
         getAngleDegrees F st' = getAngleDegrees F st \<and>
         getFullTurns st' = getFullTurns st \<and> getTurns F st' = getTurns F st \<and>
         getAccumulator st' = getAccumulator st \<and> getRPM F st' = getRPM F st \<and>
         getCount st' = getCount st"
    by simp
next
  assume h: "k < 4 \<and> k < length w \<and> (\<forall>r \<in> set (take k w). length r < 2) \<and> 2 \<le> length (w ! k)"
  then show "readWithRetries w = (fst (readCount (drop k w)), drop (Suc k) w)"
    by (intro readWithRetries_first_full) simp_all
  from h have "k < length w" "2 \<le> length (w ! k)" by simp_all
  from readCount_full [OF this] have "fst (readCount (drop k w)) < 16384" by auto
  then show "\<not> fst (readCount (drop k w)) <s 0" by (rule small_not_negative)
qed

theorem failed_poll_is_noop_witness:
  "list_all (\<lambda>r. length r < 2) (take 4 [[], [7], [], [], [0, 40 :: uint8]])
   \<and> readWithRetries [[], [7], [], [], [0, 40]] = (- 1, [[0, 40]])
   \<and> updateCount exact_ops 100 (mt6701 exact_ops, [[], [7], [], [], [0, 40]])
       = Inr (mt6701 exact_ops, [[0, 40]])
   \<and> (2 :: nat) < 4 \<and> 2 < length [[], [7], [0, 40], [1, 1 :: uint8]]
   \<and> list_all (\<lambda>r. length r < 2) (take 2 [[], [7], [0, 40], [1, 1 :: uint8]])
   \<and> 2 \<le> length ([[], [7], [0, 40], [1, 1 :: uint8]] ! 2)
   \<and> readWithRetries [[], [7], [0, 40], [1, 1]] = (10, [[1, 1]])
   \<and> \<not> (10 :: cint) <s 0"
proof -
  let ?w = "[[], [7], [], [], [0, 40 :: uint8]]"
  let ?v = "[[], [7], [0, 40], [1, 1 :: uint8]]"
  have a: "\<forall>r \<in> set (take 4 ?w). length r < 2" by code_simp
  have d: "drop 4 ?w = [[0, 40]]" by code_simp
  note t1 = failed_poll_is_noop [THEN conjunct1, THEN mp, OF a, of exact_ops 100 "mt6701 exact_ops"]
  have b: "readWithRetries ?w = (- 1, [[0, 40]])"
    using t1 [THEN conjunct1] unfolding d .
  from t1 [THEN conjunct2]
  have c: "updateCount exact_ops 100 (mt6701 exact_ops, ?w) = Inr (mt6701 exact_ops, [[0, 40]])"
    unfolding d by blast
  have h1: "(2 :: nat) < 4" by simp
  have h2: "2 < length ?v" by simp
  have h3: "\<forall>r \<in> set (take 2 ?v). length r < 2" by code_simp
  have h4: "2 \<le> length (?v ! 2)" by code_simp
  have e: "fst (readCount (drop 2 ?v)) = 10" by code_simp
  have f: "drop (Suc 2) ?v = [[1, 1]]" by code_simp
  note t2 = failed_poll_is_noop [THEN conjunct2, THEN mp,
      OF conjI [OF h1 conjI [OF h2 conjI [OF h3 h4]]]]
  have g: "readWithRetries ?v = (10, [[1, 1]])"
    using t2 [THEN conjunct1] unfolding e f .
  have i: "\<not> (10 :: cint) <s 0"
    using t2 [THEN conjunct2] unfolding e .
  from a have a': "list_all (\<lambda>r. length r < 2) (take 4 ?w)"
    by (simp only: list_all_iff)
  from h3 have h3': "list_all (\<lambda>r. length r < 2) (take 2 ?v)"
    by (simp only: list_all_iff)
  from a' b c h1 h2 h3' h4 g i show ?thesis by (intro conjI)
qed

section \<open>The filter window\<close>

lemma mean_exact: "mean exact_ops xs = sum_list xs / rat_of_nat (length xs)"
proof -
  have "foldl (+) a xs = a + sum_list xs" for a :: rat
    by (induction xs arbitrary: a) (simp_all add: add.assoc)
  then show ?thesis by (simp add: mean_def exact_ops_def)
qed

lemma getRPM_loop_foldl:
  "sint (rpmFilterSize st) \<le> int (length (rpmFilter st)) \<Longrightarrow> 0 \<le> i \<Longrightarrow>
   getRPM_loop F st i s =
     Inr (foldl (f_add F) s
            (drop (nat i) (take (nat (sint (rpmFilterSize st))) (rpmFilter st))))"
proof (induction F st i s rule: getRPM_loop.induct)
  case (1 F st i s)
  let ?n = "nat (sint (rpmFilterSize st))"
  let ?xs = "rpmFilter st"
  show ?case
  proof (cases "i < sint (rpmFilterSize st)")
    case True
    with "1.prems" have b: "nat i < length ?xs" "nat i < ?n" by linarith+
    then have l: "nat i < length (take ?n ?xs)" by simp
    have d: "drop (nat i) (take ?n ?xs) = ?xs ! nat i # drop (nat (i + 1)) (take ?n ?xs)"
      using Cons_nth_drop_Suc [OF l] b(2) "1.prems"(2) by (simp add: nat_add_distrib)
    have "getRPM_loop F st (i + 1) (f_add F s (?xs ! nat i)) =
            Inr (foldl (f_add F) (f_add F s (?xs ! nat i)) (drop (nat (i + 1)) (take ?n ?xs)))"
      using True "1.prems" b(1) by (intro "1.IH") simp_all
    with True "1.prems"(2) b(1) show ?thesis
      by (simp add: getRPM_loop.simps [of F st i] d)
  next
    case False
    then have "drop (nat i) (take ?n ?xs) = []" by simp
    with False show ?thesis by (simp add: getRPM_loop.simps [of F st i])
  qed
qed

lemma getRPM_well_formed:
  assumes "well_formed st"
  shows "getRPM F st = Inr (mean F (take (nat (sint (rpmFilterSize st))) (rpmFilter st)))"
proof -
  have R: "sint RPM_FILTER_SIZE = 10" by (simp add: RPM_FILTER_SIZE_def)
  from assms have a: "length (rpmFilter st) = 10" "0 < sint (rpmFilterSize st)"
    "sint (rpmFilterSize st) \<le> 10"
    by (simp_all add: well_formed_def R)
  then have l: "int (length (take (nat (sint (rpmFilterSize st))) (rpmFilter st)))
                = sint (rpmFilterSize st)" by simp
  have "getRPM_loop F st 0 (f_of_int F 0) =
     Inr (foldl (f_add F) (f_of_int F 0)
            (drop (nat 0) (take (nat (sint (rpmFilterSize st))) (rpmFilter st))))"
    using a by (intro getRPM_loop_foldl) simp_all
  then have g: "getRPM_loop F st 0 (f_of_int F 0) =
     Inr (foldl (f_add F) (f_of_int F 0)
            (take (nat (sint (rpmFilterSize st))) (rpmFilter st)))"
    by simp
  show ?thesis unfolding getRPM_def mean_def l g by simp
qed


lemma updateRPMFilter_seq_window:
  "well_formed st \<Longrightarrow>
   nat (sint (rpmFilterIndex st)) + length xs \<le> nat (sint (rpmFilterSize st)) \<Longrightarrow>
   \<exists>st'. updateRPMFilter_seq st xs = Inr st' \<and> well_formed st' \<and>
     rpmFilterSize st' = rpmFilterSize st \<and>
     rpmFilter st' = take (nat (sint (rpmFilterIndex st))) (rpmFilter st) @ xs @
                     drop (nat (sint (rpmFilterIndex st)) + length xs) (rpmFilter st) \<and>
     sint (rpmFilterIndex st') =
       (sint (rpmFilterIndex st) + int (length xs)) mod sint (rpmFilterSize st)"
proof (induction xs arbitrary: st)
  case Nil
  then show ?case by (simp add: well_formed_def)
next
  case (Cons x xs)
  let ?i = "nat (sint (rpmFilterIndex st))"
  let ?f = "rpmFilter st"
  let ?st1 = "st\<lparr> rpmFilter := ?f[?i := x],
                   rpmFilterIndex := c_mod (rpmFilterIndex st + 1) (rpmFilterSize st) \<rparr>"
  have R: "sint RPM_FILTER_SIZE = 10" by (simp add: RPM_FILTER_SIZE_def)
  from Cons.prems(1) have a: "length ?f = 10" "0 < sint (rpmFilterSize st)"
    "sint (rpmFilterSize st) \<le> 10" "0 \<le> sint (rpmFilterIndex st)"
    "sint (rpmFilterIndex st) < sint (rpmFilterSize st)"
    by (simp_all add: well_formed_def R)
  then have il: "?i < length ?f" by linarith
  note u = updateRPMFilter_well_formed [OF Cons.prems(1), of x]
  have m: "sint (rpmFilterIndex ?st1) = (sint (rpmFilterIndex st) + 1) mod sint (rpmFilterSize st)"
    using c_mod_step [OF a(4,5,3)] by simp
  show ?case
  proof (cases xs)
    case Nil
    have "?f[?i := x] = take ?i ?f @ [x] @ drop (?i + 1) ?f"
      using il by (simp add: upd_conv_take_nth_drop)
    with u m Nil show ?thesis by simp
  next
    case (Cons y ys)
    with Cons.prems(2) have lt: "sint (rpmFilterIndex st) + 1 < sint (rpmFilterSize st)"
      using a(4) by simp
    with m a(4) have i1: "sint (rpmFilterIndex ?st1) = sint (rpmFilterIndex st) + 1"
      by simp
    then have n1: "nat (sint (rpmFilterIndex ?st1)) = Suc ?i" using a(4) by simp
    have "nat (sint (rpmFilterIndex ?st1)) + length xs \<le> nat (sint (rpmFilterSize ?st1))"
      using Cons.prems(2) n1 by simp
    from Cons.IH [OF u(2) this] obtain st' where
      s: "updateRPMFilter_seq ?st1 xs = Inr st'" "well_formed st'"
         "rpmFilterSize st' = rpmFilterSize ?st1"
         "rpmFilter st' = take (nat (sint (rpmFilterIndex ?st1))) (rpmFilter ?st1) @ xs @
                     drop (nat (sint (rpmFilterIndex ?st1)) + length xs) (rpmFilter ?st1)"
         "sint (rpmFilterIndex st') =
            (sint (rpmFilterIndex ?st1) + int (length xs)) mod sint (rpmFilterSize ?st1)"
      by blast
    have t: "take (Suc ?i) (?f[?i := x]) = take ?i ?f @ [x]"
      using il by (simp add: take_Suc_conv_app_nth)
    have d: "drop (Suc ?i + length xs) (?f[?i := x]) = drop (Suc ?i + length xs) ?f"
      by simp
    from s(4) have f': "rpmFilter st' = take ?i ?f @ (x # xs) @ drop (?i + length (x # xs)) ?f"
      unfolding n1 by (simp add: t d)
    from s(5) have i': "sint (rpmFilterIndex st') =
        (sint (rpmFilterIndex st) + int (length (x # xs))) mod sint (rpmFilterSize st)"
      unfolding i1 by (simp add: ac_simps)
    from s(1) u(1) have "updateRPMFilter_seq st (x # xs) = Inr st'" by simp
    with s(2,3) f' i' show ?thesis by simp
  qed
qed

text \<open>
  From the constructed object, as many writes as the stored size fill the first slots in
  order, and one more write takes the place of the first.
\<close>

lemma updateRPMFilter_seq_full_window:
  assumes "0 < sint rpm_filter_size"
    and "int (length ss) = sint (rpmFilterSize (MT6701 F a u thr rpm_filter_size))"
  shows "\<exists>st1 st2.
     updateRPMFilter_seq (MT6701 F a u thr rpm_filter_size) ss = Inr st1 \<and>
     rpmFilter st1 = ss @ replicate (nat (sint RPM_FILTER_SIZE) - length ss) (f_lit F 0) \<and>
     getRPM F st1 = Inr (mean F ss) \<and>
     updateRPMFilter st1 x = Inr st2 \<and>
     rpmFilter st2 = x # tl ss @ replicate (nat (sint RPM_FILTER_SIZE) - length ss) (f_lit F 0) \<and>
     getRPM F st2 = Inr (mean F (x # tl ss))"
proof -
  let ?st0 = "MT6701 F a u thr rpm_filter_size"
  let ?zs = "replicate (nat (sint RPM_FILTER_SIZE) - length ss) (f_lit F 0)"
  have wf0: "well_formed ?st0" using assms(1) by (rule well_formed_MT6701)
  have i0: "rpmFilterIndex ?st0 = 0"
    and f0: "rpmFilter ?st0 = replicate (nat (sint RPM_FILTER_SIZE)) (f_lit F 0)"
    by (simp_all add: MT6701_def)
  from assms(2) have n: "nat (sint (rpmFilterSize ?st0)) = length ss" by simp
  from wf0 have pos: "0 < sint (rpmFilterSize ?st0)" by (simp add: well_formed_def)
  with assms(2) have ne: "ss \<noteq> []" by auto
  have "nat (sint (rpmFilterIndex ?st0)) + length ss \<le> nat (sint (rpmFilterSize ?st0))"
    by (simp add: i0 n)
  from updateRPMFilter_seq_window [OF wf0 this] obtain st1 where
    s: "updateRPMFilter_seq ?st0 ss = Inr st1" "well_formed st1"
       "rpmFilterSize st1 = rpmFilterSize ?st0"
       "rpmFilter st1 = take (nat (sint (rpmFilterIndex ?st0))) (rpmFilter ?st0) @ ss @
                     drop (nat (sint (rpmFilterIndex ?st0)) + length ss) (rpmFilter ?st0)"
       "sint (rpmFilterIndex st1) =
          (sint (rpmFilterIndex ?st0) + int (length ss)) mod sint (rpmFilterSize ?st0)"
    by blast
  from s(4) have f1: "rpmFilter st1 = ss @ ?zs" by (simp add: i0 f0)
  from s(5) have i1: "sint (rpmFilterIndex st1) = 0" by (simp add: i0 assms(2))
  have n1: "nat (sint (rpmFilterSize st1)) = length ss" by (simp add: s(3) n)
  have g1: "getRPM F st1 = Inr (mean F ss)"
    by (simp add: getRPM_well_formed [OF s(2)] n1 f1)
  let ?st2 = "st1\<lparr> rpmFilter := (rpmFilter st1)[nat (sint (rpmFilterIndex st1)) := x],
                    rpmFilterIndex := c_mod (rpmFilterIndex st1 + 1) (rpmFilterSize st1) \<rparr>"
  note u = updateRPMFilter_well_formed [OF s(2), of x]
  from ne obtain y ys where ss: "ss = y # ys" by (cases ss) auto
  have f2: "rpmFilter ?st2 = x # tl ss @ ?zs" by (simp add: f1 i1 ss)
  have n2: "nat (sint (rpmFilterSize ?st2)) = length (x # tl ss)" using n1 ss by simp
  have g2: "getRPM F ?st2 = Inr (mean F (x # tl ss))"
    unfolding getRPM_well_formed [OF u(2)] n2 f2 by simp
  from s(1) f1 g1 u(1) f2 g2 show ?thesis by blast
qed

section \<open>What the calls write to the filter\<close>

lemma updateRPMFilter_seq_append:
  "updateRPMFilter_seq st (xs @ ys) =
     (case updateRPMFilter_seq st xs of Inl e \<Rightarrow> Inl e | Inr st1 \<Rightarrow> updateRPMFilter_seq st1 ys)"
  by (induction xs arbitrary: st) (auto split: sum.splits)

lemma updateRPMFilter_same_filter:
  assumes "updateRPMFilter st x = Inr st1"
    and "rpmFilter s = rpmFilter st" "rpmFilterIndex s = rpmFilterIndex st"
        "rpmFilterSize s = rpmFilterSize st"
  shows "\<exists>s1. updateRPMFilter s x = Inr s1 \<and> rpmFilter s1 = rpmFilter st1 \<and>
           rpmFilterIndex s1 = rpmFilterIndex st1 \<and> rpmFilterSize s1 = rpmFilterSize st1"
  using assms by (auto simp: updateRPMFilter_def split: if_splits)

lemma acceptedRate_None:
  "readWithRetries w = (n, w') \<Longrightarrow> n <s 0 \<Longrightarrow> acceptedRate F t (st, w) = None"
  "readWithRetries w = (n, w') \<Longrightarrow> \<not> n <s 0 \<Longrightarrow> t = lastUpdateTime st \<Longrightarrow>
     acceptedRate F t (st, w) = None"
  "readWithRetries w = (n, w') \<Longrightarrow> \<not> n <s 0 \<Longrightarrow>
     \<not> f_less F (f_abs F (rate F (wrapDiff (n - count st)) (t - lastUpdateTime st)))
           (f_of_int F (sint (rpmThreshold st))) \<Longrightarrow>
     acceptedRate F t (st, w) = None"
  by (simp_all add: acceptedRate_def Let_def)

lemma acceptedRate_Some:
  "readWithRetries w = (n, w') \<Longrightarrow> \<not> n <s 0 \<Longrightarrow> t \<noteq> lastUpdateTime st \<Longrightarrow>
   f_less F (f_abs F (rate F (wrapDiff (n - count st)) (t - lastUpdateTime st)))
          (f_of_int F (sint (rpmThreshold st))) \<Longrightarrow>
   acceptedRate F t (st, w) = Some (rate F (wrapDiff (n - count st)) (t - lastUpdateTime st))"
  by (simp add: acceptedRate_def Let_def word_greater_zero_iff)

text \<open>One call writes to the filter what it accepts, and nothing else.\<close>

lemma updateCount_writes_accepted:
  assumes "updateCount F t (st, w) = Inr (st', w')"
    and "rpmFilter s = rpmFilter st" "rpmFilterIndex s = rpmFilterIndex st"
        "rpmFilterSize s = rpmFilterSize st"
  shows "\<exists>s'. updateRPMFilter_seq s
                (case acceptedRate F t (st, w) of None \<Rightarrow> [] | Some r \<Rightarrow> [r]) = Inr s' \<and>
           rpmFilter s' = rpmFilter st' \<and> rpmFilterIndex s' = rpmFilterIndex st' \<and>
           rpmFilterSize s' = rpmFilterSize st'"
proof -
  obtain n w1 where r: "readWithRetries w = (n, w1)" by (cases "readWithRetries w")
  let ?r = "rate F (wrapDiff (n - count st)) (t - lastUpdateTime st)"
  consider (none) "n <s 0"
    | (zero) "\<not> n <s 0" "t = lastUpdateTime st"
    | (rejected) "\<not> n <s 0" "t \<noteq> lastUpdateTime st"
        "\<not> f_less F (f_abs F ?r) (f_of_int F (sint (rpmThreshold st)))"
    | (accepted) "\<not> n <s 0" "t \<noteq> lastUpdateTime st"
        "f_less F (f_abs F ?r) (f_of_int F (sint (rpmThreshold st)))"
    by blast
  then show ?thesis
  proof cases
    case none
    from updateCount_no_sample [OF r none, of F t st] assms
      acceptedRate_None(1) [OF r none, of F t st]
    show ?thesis by simp
  next
    case zero
    from updateCount_zero_elapsed [OF r zero, of F] assms
      acceptedRate_None(2) [OF r zero, of F]
    show ?thesis by auto
  next
    case rejected
    from updateCount_rejected [OF r rejected(1,2) refl rejected(3)] assms
      acceptedRate_None(3) [OF r rejected(1,3)]
    show ?thesis by auto
  next
    case accepted
    from updateCount_accepted [OF r accepted(1,2) refl accepted(3)] assms(1)
    obtain st2 where 2: "updateRPMFilter (st\<lparr> rpm := ?r \<rparr>) ?r = Inr st2"
      and 3: "st' = st2\<lparr> accumulator := accumulator st2 + wrapDiff (n - count st),
                    count := n, lastUpdateTime := t \<rparr>"
      by (auto split: sum.splits)
    from updateRPMFilter_same_filter [OF 2, of s] assms(2-4)
    obtain s1 where 4: "updateRPMFilter s ?r = Inr s1" "rpmFilter s1 = rpmFilter st2"
      "rpmFilterIndex s1 = rpmFilterIndex st2" "rpmFilterSize s1 = rpmFilterSize st2"
      by auto
    from 3 4 acceptedRate_Some [OF r accepted] show ?thesis by simp
  qed
qed

lemma updates_write_accepted:
  "updates F ts (st, w) = Inr (st', w') \<Longrightarrow>
   rpmFilter s = rpmFilter st \<Longrightarrow> rpmFilterIndex s = rpmFilterIndex st \<Longrightarrow>
   rpmFilterSize s = rpmFilterSize st \<Longrightarrow>
   \<exists>s'. updateRPMFilter_seq s (acceptedRates F ts (st, w)) = Inr s' \<and>
        rpmFilter s' = rpmFilter st' \<and> rpmFilterIndex s' = rpmFilterIndex st' \<and>
        rpmFilterSize s' = rpmFilterSize st'"
proof (induction ts arbitrary: st w s)
  case Nil
  then show ?case by simp
next
  case (Cons t ts)
  from Cons.prems(1) obtain st1 w1 where 1: "updateCount F t (st, w) = Inr (st1, w1)"
    and 2: "updates F ts (st1, w1) = Inr (st', w')"
    by (auto split: sum.splits)
  let ?l = "case acceptedRate F t (st, w) of None \<Rightarrow> [] | Some r \<Rightarrow> [r]"
  from updateCount_writes_accepted [OF 1 Cons.prems(2-4)] obtain s1 where
    3: "updateRPMFilter_seq s ?l = Inr s1" "rpmFilter s1 = rpmFilter st1"
       "rpmFilterIndex s1 = rpmFilterIndex st1" "rpmFilterSize s1 = rpmFilterSize st1"
    by blast
  from Cons.IH [OF 2 3(2-4)] obtain s' where
    4: "updateRPMFilter_seq s1 (acceptedRates F ts (st1, w1)) = Inr s'"
       "rpmFilter s' = rpmFilter st'" "rpmFilterIndex s' = rpmFilterIndex st'"
       "rpmFilterSize s' = rpmFilterSize st'"
    by blast
  have "acceptedRates F (t # ts) (st, w) = ?l @ acceptedRates F ts (st1, w1)"
    by (simp add: 1)
  then have "updateRPMFilter_seq s (acceptedRates F (t # ts) (st, w)) = Inr s'"
    by (simp only: updateRPMFilter_seq_append 3(1) 4(1) sum.case)
  with 4(2-4) show ?case by blast
qed

text \<open>
  Claim C7. Let the object be constructed with a filter size of at least 1, and let \<open>N\<close>
  be the size it stores. Every sequence of calls of \<open>updateCount\<close> runs without error.
  When the rates it accepts are \<open>N\<close> in number, the first \<open>N\<close> slots of the filter hold
  them in order and \<open>getRPM\<close> is their mean. When they are \<open>N + 1\<close>, the last has taken
  the place of the first: the slots hold the last and then the second to the \<open>N\<close>-th, and
  \<open>getRPM\<close> is the mean of these, in which the first has no part.
\<close>

theorem filter_window:
  assumes "0 < sint rpm_filter_size"
  shows "\<exists>st' w'. updates F ts (MT6701 F a u thr rpm_filter_size, w) = Inr (st', w') \<and>
     (acceptedRates F ts (MT6701 F a u thr rpm_filter_size, w) = ss \<and>
      int (length ss) = sint (rpmFilterSize (MT6701 F a u thr rpm_filter_size))
      \<longrightarrow> rpmFilter st' = ss @ replicate (nat (sint RPM_FILTER_SIZE) - length ss) (f_lit F 0) \<and>
          getRPM F st' = Inr (mean F ss)) \<and>
     (acceptedRates F ts (MT6701 F a u thr rpm_filter_size, w) = s1 # rest @ [x] \<and>
      int (length (s1 # rest)) = sint (rpmFilterSize (MT6701 F a u thr rpm_filter_size))
      \<longrightarrow> rpmFilter st' =
            x # rest @ replicate (nat (sint RPM_FILTER_SIZE) - length (s1 # rest)) (f_lit F 0) \<and>
          getRPM F st' = Inr (mean F (x # rest)))"
proof -
  let ?st0 = "MT6701 F a u thr rpm_filter_size"
  have wf0: "well_formed ?st0" using assms by (rule well_formed_MT6701)
  from updates_well_formed [OF wf0, of F ts w] obtain st' w' where
    u: "updates F ts (?st0, w) = Inr (st', w')" by blast
  from updates_write_accepted [OF u refl refl refl] obtain s' where
    s: "updateRPMFilter_seq ?st0 (acceptedRates F ts (?st0, w)) = Inr s'"
       "rpmFilter s' = rpmFilter st'" "rpmFilterSize s' = rpmFilterSize st'"
    by blast
  have g: "getRPM F st' = getRPM F s'" using s(2,3) by (intro getRPM_frame) simp_all
  have 1: "rpmFilter st' = ss @ replicate (nat (sint RPM_FILTER_SIZE) - length ss) (f_lit F 0) \<and>
          getRPM F st' = Inr (mean F ss)"
    if h: "acceptedRates F ts (?st0, w) = ss \<and> int (length ss) = sint (rpmFilterSize ?st0)"
  proof -
    from h have l: "int (length ss) = sint (rpmFilterSize ?st0)" by simp
    from updateRPMFilter_seq_full_window [OF assms l, of x] obtain st1 where
      f: "updateRPMFilter_seq ?st0 ss = Inr st1"
         "rpmFilter st1 = ss @ replicate (nat (sint RPM_FILTER_SIZE) - length ss) (f_lit F 0)"
         "getRPM F st1 = Inr (mean F ss)"
      by blast
    from f(1) s(1) h have "s' = st1" by simp
    with f s(2) g show ?thesis by simp
  qed
  have 2: "rpmFilter st' =
            x # rest @ replicate (nat (sint RPM_FILTER_SIZE) - length (s1 # rest)) (f_lit F 0) \<and>
          getRPM F st' = Inr (mean F (x # rest))"
    if h: "acceptedRates F ts (?st0, w) = s1 # rest @ [x] \<and>
           int (length (s1 # rest)) = sint (rpmFilterSize ?st0)"
  proof -
    from h have l: "int (length (s1 # rest)) = sint (rpmFilterSize ?st0)" by simp
    from updateRPMFilter_seq_full_window [OF assms l, of x] obtain st1 st2 where
      f: "updateRPMFilter_seq ?st0 (s1 # rest) = Inr st1"
         "updateRPMFilter st1 x = Inr st2"
         "rpmFilter st2 = x # tl (s1 # rest) @
            replicate (nat (sint RPM_FILTER_SIZE) - length (s1 # rest)) (f_lit F 0)"
         "getRPM F st2 = Inr (mean F (x # tl (s1 # rest)))"
      by blast
    have "updateRPMFilter_seq ?st0 ((s1 # rest) @ [x]) = Inr st2"
      by (simp only: updateRPMFilter_seq_append f(1) sum.case) (simp add: f(2))
    with s(1) h have "s' = st2" by simp
    with f(3,4) s(2) g show ?thesis by simp
  qed
  from u 1 2 show ?thesis by blast
qed

theorem filter_window_witness:
  "0 < sint (3 :: cint)
   \<and> acceptedRates exact_ops [100, 200, 300, 400]
        (MT6701 exact_ops 6 50 1000 3,
         [[0, 80], [0, 120], [], [], [], [], [0, 160], [1, 24]])
       = [375 / 512, 375 / 1024, 375 / 2048]
   \<and> int (length [375 / 512, 375 / 1024, 375 / 2048 :: rat])
       = sint (rpmFilterSize (MT6701 exact_ops 6 50 1000 3))
   \<and> (\<exists>st' w'. updates exact_ops [100, 200, 300, 400]
          (MT6701 exact_ops 6 50 1000 3,
           [[0, 80], [0, 120], [], [], [], [], [0, 160], [1, 24]]) = Inr (st', w') \<and>
        rpmFilter st' = [375 / 512, 375 / 1024, 375 / 2048, 0, 0, 0, 0, 0, 0, 0] \<and>
        getRPM exact_ops st' = Inr (875 / 2048))
   \<and> acceptedRates exact_ops [100, 200, 300, 400, 500]
        (MT6701 exact_ops 6 50 1000 3,
         [[0, 80], [0, 120], [], [], [], [], [0, 160], [1, 24]])
       = 375 / 512 # [375 / 1024, 375 / 2048] @ [1125 / 1024]
   \<and> int (length (375 / 512 # [375 / 1024, 375 / 2048 :: rat]))
       = sint (rpmFilterSize (MT6701 exact_ops 6 50 1000 3))
   \<and> (\<exists>st' w'. updates exact_ops [100, 200, 300, 400, 500]
          (MT6701 exact_ops 6 50 1000 3,
           [[0, 80], [0, 120], [], [], [], [], [0, 160], [1, 24]]) = Inr (st', w') \<and>
        rpmFilter st' = [1125 / 1024, 375 / 1024, 375 / 2048, 0, 0, 0, 0, 0, 0, 0] \<and>
        getRPM exact_ops st' = Inr (1125 / 2048))"
proof -
  let ?s0 = "MT6701 exact_ops 6 50 1000 3"
  let ?w = "[[0, 80], [0, 120], [], [], [], [], [0, 160], [1, 24 :: uint8]]"
  let ?ss = "[375 / 512, 375 / 1024, 375 / 2048 :: rat]"
  let ?rest = "[375 / 1024, 375 / 2048 :: rat]"
  have p: "0 < sint (3 :: cint)" by simp
  have a4: "acceptedRates exact_ops [100, 200, 300, 400] (?s0, ?w) = ?ss" by code_simp
  have l4: "int (length ?ss) = sint (rpmFilterSize ?s0)" by code_simp
  have z4: "?ss @ replicate (nat (sint RPM_FILTER_SIZE) - length ?ss) (f_lit exact_ops 0)
            = [375 / 512, 375 / 1024, 375 / 2048, 0, 0, 0, 0, 0, 0, 0]" by code_simp
  have m4: "mean exact_ops ?ss = 875 / 2048" by code_simp
  have a5: "acceptedRates exact_ops [100, 200, 300, 400, 500] (?s0, ?w)
            = 375 / 512 # ?rest @ [1125 / 1024]" by code_simp
  have l5: "int (length (375 / 512 # ?rest)) = sint (rpmFilterSize ?s0)" by code_simp
  have z5: "1125 / 1024 # ?rest @
              replicate (nat (sint RPM_FILTER_SIZE) - length (375 / 512 # ?rest))
                (f_lit exact_ops 0)
            = [1125 / 1024, 375 / 1024, 375 / 2048, 0, 0, 0, 0, 0, 0, 0]" by code_simp
  have m5: "mean exact_ops (1125 / 1024 # ?rest) = 1125 / 2048" by code_simp
  from filter_window [OF p, where F = exact_ops and ts = "[100, 200, 300, 400]" and a = 6
      and u = 50 and thr = 1000 and w = ?w and ss = ?ss]
  obtain st4 w4 where
    u4: "updates exact_ops [100, 200, 300, 400] (?s0, ?w) = Inr (st4, w4)"
    and i4: "acceptedRates exact_ops [100, 200, 300, 400] (?s0, ?w) = ?ss \<and>
         int (length ?ss) = sint (rpmFilterSize ?s0) \<longrightarrow>
         rpmFilter st4 = ?ss @ replicate (nat (sint RPM_FILTER_SIZE) - length ?ss)
                                  (f_lit exact_ops 0) \<and>
         getRPM exact_ops st4 = Inr (mean exact_ops ?ss)"
    by blast
  from i4 a4 l4 have "rpmFilter st4 = ?ss @ replicate (nat (sint RPM_FILTER_SIZE) - length ?ss)
                                  (f_lit exact_ops 0) \<and>
         getRPM exact_ops st4 = Inr (mean exact_ops ?ss)" by blast
  then have "rpmFilter st4 = [375 / 512, 375 / 1024, 375 / 2048, 0, 0, 0, 0, 0, 0, 0] \<and>
         getRPM exact_ops st4 = Inr (875 / 2048)"
    unfolding z4 m4 .
  with u4 have e4: "\<exists>st' w'. updates exact_ops [100, 200, 300, 400] (?s0, ?w) = Inr (st', w') \<and>
        rpmFilter st' = [375 / 512, 375 / 1024, 375 / 2048, 0, 0, 0, 0, 0, 0, 0] \<and>
        getRPM exact_ops st' = Inr (875 / 2048)" by blast
  from filter_window [OF p, where F = exact_ops and ts = "[100, 200, 300, 400, 500]" and a = 6
      and u = 50 and thr = 1000 and w = ?w and ?s1.0 = "375 / 512" and rest = ?rest
      and x = "1125 / 1024"]
  obtain st5 w5 where
    u5: "updates exact_ops [100, 200, 300, 400, 500] (?s0, ?w) = Inr (st5, w5)"
    and i5: "acceptedRates exact_ops [100, 200, 300, 400, 500] (?s0, ?w)
           = 375 / 512 # ?rest @ [1125 / 1024] \<and>
         int (length (375 / 512 # ?rest)) = sint (rpmFilterSize ?s0) \<longrightarrow>
         rpmFilter st5 = 1125 / 1024 # ?rest @
              replicate (nat (sint RPM_FILTER_SIZE) - length (375 / 512 # ?rest))
                (f_lit exact_ops 0) \<and>
         getRPM exact_ops st5 = Inr (mean exact_ops (1125 / 1024 # ?rest))"
    by blast
  from i5 a5 l5 have "rpmFilter st5 = 1125 / 1024 # ?rest @
              replicate (nat (sint RPM_FILTER_SIZE) - length (375 / 512 # ?rest))
                (f_lit exact_ops 0) \<and>
         getRPM exact_ops st5 = Inr (mean exact_ops (1125 / 1024 # ?rest))" by blast
  then have "rpmFilter st5 = [1125 / 1024, 375 / 1024, 375 / 2048, 0, 0, 0, 0, 0, 0, 0] \<and>
         getRPM exact_ops st5 = Inr (1125 / 2048)"
    unfolding z5 m5 .
  with u5 have e5: "\<exists>st' w'. updates exact_ops [100, 200, 300, 400, 500] (?s0, ?w)
          = Inr (st', w') \<and>
        rpmFilter st' = [1125 / 1024, 375 / 1024, 375 / 2048, 0, 0, 0, 0, 0, 0, 0] \<and>
        getRPM exact_ops st' = Inr (1125 / 2048)" by blast
  from p a4 l4 e4 a5 l5 e5 show ?thesis by (intro conjI)
qed

section \<open>The filter size that the constructor stores\<close>

text \<open>
  Claim C8. The constructor bounds the filter size from above only. Asked for 0, it stores
  0: the next accepted sample takes a remainder by zero in \<open>updateRPMFilter\<close>, and \<open>getRPM\<close>
  divides the empty sum by zero. Asked for a negative size, it stores that size.
\<close>

theorem unclamped_filter_size:
  "rpmFilterSize (MT6701 F a u thr 0) = 0
   \<and> updateRPMFilter (MT6701 F a u thr 0) x = Inl DivisionByZero
   \<and> getRPM F (MT6701 F a u thr 0) = Inr (f_div F (f_of_int F 0) (f_of_int F 0))
   \<and> updateCount exact_ops 100 (MT6701 exact_ops 6 50 1000 0, [[0, 40]]) = Inl DivisionByZero
   \<and> rpmFilterSize (MT6701 F a u thr (- 3)) = - 3"
proof (intro conjI)
  show z: "rpmFilterSize (MT6701 F a u thr 0) = 0"
    by (simp add: MT6701_def RPM_FILTER_SIZE_def word_sless_alt)
  show "updateRPMFilter (MT6701 F a u thr 0) x = Inl DivisionByZero"
    by (simp add: updateRPMFilter_def z) (simp add: MT6701_def RPM_FILTER_SIZE_def)
  have "getRPM_loop F (MT6701 F a u thr 0) 0 (f_of_int F 0) = Inr (f_of_int F 0)"
    by (simp add: getRPM_loop.simps [of F _ 0] z)
  then show "getRPM F (MT6701 F a u thr 0) = Inr (f_div F (f_of_int F 0) (f_of_int F 0))"
    by (simp add: getRPM_def z)
  show "updateCount exact_ops 100 (MT6701 exact_ops 6 50 1000 0, [[0, 40]]) = Inl DivisionByZero"
    by code_simp
  show "rpmFilterSize (MT6701 F a u thr (- 3)) = - 3"
    by (simp add: MT6701_def RPM_FILTER_SIZE_def word_sless_alt)
qed

end
